theory Spec2Isabelle
  imports Main "HOL-Library.Word"
begin

section \<open>The disk log consumer task\<close>

text \<open>
  A shallow embedding of \<^verbatim>\<open>DiskLogConsumerTask\<close> (disk_log_consumer_task.cpp):
  \<^verbatim>\<open>RunTask\<close>, \<^verbatim>\<open>Terminate\<close>, \<^verbatim>\<open>WriteBuffersToLogFile\<close>, \<^verbatim>\<open>PersistLogFile\<close> and
  \<^verbatim>\<open>DiskLogConsumerTaskLoop\<close>.

  The members of the task are the fields of the record \<open>consumer\<close>. Everything the task
  does to the outside (dequeueing an entry, flushing and persisting a buffer, invoking a
  callback, taking and releasing the persist lock, waiting, notifying a condition
  variable, recording metrics) is appended, in program order, to the field \<open>trace\<close>, so
  that "before" and "after" are positions in a list. The serializer's enqueues on the
  filled queue are appended to the same list.

  The consumer thread is modelled sequentially. What other threads do to the shared
  members (the serializer enqueueing filled buffers, a force-flush caller setting
  \<^verbatim>\<open>do_persist_\<close>, \<^verbatim>\<open>Terminate\<close> clearing \<^verbatim>\<open>run_task_\<close>) and what the clock reads are
  inputs: each loop iteration takes a record \<open>iteration\<close> that says what happened at three
  points of the iteration.
\<close>

subsection \<open>Data\<close>

type_synonym u64 = "64 word"

text \<open>A \<^verbatim>\<open>BufferedLogWriter *\<close>: the address of a buffer.\<close>
type_synonym buffer_ptr = nat

text \<open>A commit callback: the pair (function, argument) of \<^verbatim>\<open>commit_callbacks_\<close>.\<close>
type_synonym callback = "nat \<times> nat"

text \<open>\<^verbatim>\<open>SerializedLogs\<close>: a buffer and the callbacks of the commit records it holds.\<close>
type_synonym serialized_logs = "buffer_ptr \<times> callback list"

text \<open>
  A reading of \<^verbatim>\<open>std::chrono::high_resolution_clock\<close>, in nanoseconds (the clock's
  period in libstdc++ and libc++); durations are signed, as \<^verbatim>\<open>std::chrono\<close> has them.
\<close>
type_synonym time_point = int

datatype event =
    EvYield
  | EvNotifyOne
  | EvLock
  | EvWaitFor
  | EvUnlock
  | EvFlush buffer_ptr u64
  | EvPersist buffer_ptr
  | EvInvoke callback
  | EvNotifyAll
  | EvRecord u64 u64 u64 u64
  | EvEnqueue serialized_logs
  | EvDequeue serialized_logs

datatype error = AssertionFailure | NullDereference

text \<open>
  Modelled from the spec: the class of \<^verbatim>\<open>common::thread_context.metrics_store_\<close> is
  not part of the sources (metrics/metrics_store.h); the spec gives it two operations,
  \<^verbatim>\<open>component_enabled(Logging)\<close> and \<^verbatim>\<open>record_consumer_data\<close>. The pointer is an
  option: \<open>None\<close> is \<^verbatim>\<open>nullptr\<close>.
\<close>
record metrics_store =
  logging_enabled :: bool

record consumer =
  run_task :: bool
  do_persist :: bool
  filled_buffer_queue :: "serialized_logs list"
  empty_buffer_queue :: "buffer_ptr list"
  buffers :: "buffer_ptr list"
  buffer_size :: "buffer_ptr \<Rightarrow> u64"
  commit_callbacks :: "callback list"
  current_data_written :: u64
  persist_interval :: int
  persist_threshold :: u64
  metrics_store :: "metrics_store option"
  trace :: "event list"

text \<open>
  \<open>persist_interval\<close> is in milliseconds: the header that declares \<^verbatim>\<open>persist_interval_\<close>
  is not part of the sources, and the caller in the TPC-C benchmark passes a
  \<^verbatim>\<open>std::chrono::milliseconds\<close>. \<open>buffer_size\<close> is the store of the buffers: the number of
  bytes staged in each buffer.
\<close>

definition emit :: "event list \<Rightarrow> consumer \<Rightarrow> consumer" where
  "emit evs s = s\<lparr>trace := trace s @ evs\<rparr>"

subsection \<open>The collaborators the sources do not contain\<close>

text \<open>
  Modelled from the spec: the queue class is not part of the sources. The spec describes
  a FIFO with \<^verbatim>\<open>enqueue\<close>, \<^verbatim>\<open>dequeue(&out) -> bool\<close> and \<^verbatim>\<open>empty\<close>. A failed dequeue
  is \<open>None\<close>.
\<close>
definition Empty :: "'a list \<Rightarrow> bool" where
  "Empty q = (q = [])"

definition Enqueue :: "'a list \<Rightarrow> 'a \<Rightarrow> 'a list" where
  "Enqueue q x = q @ [x]"

definition Dequeue :: "'a list \<Rightarrow> ('a \<times> 'a list) option" where
  "Dequeue q = (case q of [] \<Rightarrow> None | x # q' \<Rightarrow> Some (x, q'))"

text \<open>
  Modelled from the spec: \<^verbatim>\<open>BufferedLogWriter::FlushBuffer\<close> is not part of the sources.
  The spec's \<^verbatim>\<open>append_flush\<close> returns the number of bytes handed to the operating system
  since the last flush; the buffer's byte counter is reset.
\<close>
definition FlushBuffer :: "buffer_ptr \<Rightarrow> consumer \<Rightarrow> u64 \<times> consumer" where
  "FlushBuffer b s =
     (buffer_size s b,
      emit [EvFlush b (buffer_size s b)] (s\<lparr>buffer_size := (buffer_size s)(b := 0)\<rparr>))"

text \<open>
  Modelled from the spec: \<^verbatim>\<open>BufferedLogWriter::Persist\<close> is not part of the sources. The
  spec's \<^verbatim>\<open>persist\<close> blocks until all bytes flushed before are on stable storage; the
  event \<open>EvPersist\<close> stands for the completed call. An I/O failure aborts the process and
  is outside the model.
\<close>
definition Persist :: "buffer_ptr \<Rightarrow> consumer \<Rightarrow> consumer" where
  "Persist b s = emit [EvPersist b] s"

text \<open>
  Modelled from the spec: \<^verbatim>\<open>ComponentEnabled\<close> and \<^verbatim>\<open>RecordConsumerData\<close> are not part
  of the sources. Both are called through the pointer \<^verbatim>\<open>metrics_store_\<close>: through a null
  pointer the call is an error.
\<close>
definition ComponentEnabled :: "metrics_store option \<Rightarrow> error + bool" where
  "ComponentEnabled p = (case p of None \<Rightarrow> Inl NullDereference | Some m \<Rightarrow> Inr (logging_enabled m))"

definition RecordConsumerData ::
  "metrics_store option \<Rightarrow> u64 \<Rightarrow> u64 \<Rightarrow> u64 \<Rightarrow> u64 \<Rightarrow> consumer \<Rightarrow> error + consumer" where
  "RecordConsumerData p w pu b n s =
     (case p of None \<Rightarrow> Inl NullDereference | Some m \<Rightarrow> Inr (emit [EvRecord w pu b n] s))"

text \<open>A callback's own effect belongs to the transaction manager; the call is an event.\<close>
definition invoke :: "callback \<Rightarrow> consumer \<Rightarrow> consumer" where
  "invoke c s = emit [EvInvoke c] s"

subsection \<open>WriteBuffersToLogFile\<close>

text \<open>
  The body of the while loop (lines 27 to 31): dequeue, flush, add the returned byte
  count, append the callbacks, hand the buffer back. The loop's guard excludes the failed
  dequeue.
\<close>
definition write_buffer :: "consumer \<Rightarrow> consumer" where
  "write_buffer s =
     (case Dequeue (filled_buffer_queue s) of
        None \<Rightarrow> s
      | Some (logs, q) \<Rightarrow>
          (let s1 = emit [EvDequeue logs] (s\<lparr>filled_buffer_queue := q\<rparr>);
               (n, s2) = FlushBuffer (fst logs) s1;
               s3 = s2\<lparr>current_data_written := current_data_written s2 + n\<rparr>;
               s4 = s3\<lparr>commit_callbacks := commit_callbacks s3 @ snd logs\<rparr>
           in s4\<lparr>empty_buffer_queue := Enqueue (empty_buffer_queue s4) (fst logs)\<rparr>))"

function WriteBuffersToLogFile :: "consumer \<Rightarrow> consumer" where
  "WriteBuffersToLogFile s =
     (if \<not> Empty (filled_buffer_queue s) then WriteBuffersToLogFile (write_buffer s) else s)"
  by pat_completeness auto
termination
proof (relation "measure (\<lambda>s. length (filled_buffer_queue s))")
  show "wf (measure (\<lambda>s. length (filled_buffer_queue s)))"
    by simp
next
  fix s :: consumer
  assume "\<not> Empty (filled_buffer_queue s)"
  then show "(write_buffer s, s) \<in> measure (\<lambda>s. length (filled_buffer_queue s))"
    by (cases "filled_buffer_queue s")
       (simp_all add: write_buffer_def Dequeue_def Empty_def FlushBuffer_def emit_def)
qed

declare WriteBuffersToLogFile.simps [simp del]

subsection \<open>PersistLogFile\<close>

text \<open>The range-for loop of line 42.\<close>
fun run_callbacks :: "callback list \<Rightarrow> consumer \<Rightarrow> consumer" where
  "run_callbacks [] s = s"
| "run_callbacks (c # cs) s = run_callbacks cs (invoke c s)"

definition PersistLogFile :: "consumer \<Rightarrow> error + (u64 \<times> consumer)" where
  "PersistLogFile s =
     (if buffers s = [] then Inl AssertionFailure
      else
        (let s1 = Persist (hd (buffers s)) s;
             num_buffers = (of_nat (length (commit_callbacks s1)) :: u64);
             s2 = run_callbacks (commit_callbacks s1) s1;
             s3 = s2\<lparr>commit_callbacks := []\<rparr>
         in Inr (num_buffers, s3)))"

subsection \<open>Terminate\<close>

text \<open>
  \<^verbatim>\<open>std::this_thread::yield()\<close> lets other threads run. The only other writer of
  \<^verbatim>\<open>run_task_\<close> is \<^verbatim>\<open>RunTask\<close> (line 9); \<open>started i\<close> says whether line 9 executes
  during the i-th yield.
\<close>
definition yield :: "bool \<Rightarrow> consumer \<Rightarrow> consumer" where
  "yield started_now s = emit [EvYield] (s\<lparr>run_task := (run_task s \<or> started_now)\<rparr>)"

partial_function (option) spin_yield :: "(nat \<Rightarrow> bool) \<Rightarrow> nat \<Rightarrow> consumer \<Rightarrow> consumer option"
  where
  "spin_yield started i s =
     (if \<not> run_task s then spin_yield started (Suc i) (yield (started i) s) else Some s)"

text \<open>\<open>None\<close>: the call does not return.\<close>
definition Terminate :: "(nat \<Rightarrow> bool) \<Rightarrow> consumer \<Rightarrow> (error + consumer) option" where
  "Terminate started s =
     (case spin_yield started 0 s of
        None \<Rightarrow> None
      | Some s1 \<Rightarrow>
          if \<not> run_task s1 then Some (Inl AssertionFailure)
          else Some (Inr (emit [EvNotifyOne] (s1\<lparr>run_task := False\<rparr>))))"

subsection \<open>DiskLogConsumerTaskLoop\<close>

text \<open>
  Modelled from the spec: the serializer and \<^verbatim>\<open>ForceFlush\<close> are not part of the sources.
  An \<open>interference\<close> is what other threads do to the shared members at one point of an
  iteration: the serializer takes a buffer from the empty queue, fills it with some
  bytes, and enqueues it with its callbacks on the filled queue; a force-flush caller sets
  \<^verbatim>\<open>do_persist_\<close>; \<^verbatim>\<open>Terminate\<close> clears \<^verbatim>\<open>run_task_\<close> (line 18).
\<close>
record interference =
  enqueued :: "(u64 \<times> serialized_logs) list"
  force_flush :: bool
  terminate :: bool

fun produce :: "(u64 \<times> serialized_logs) list \<Rightarrow> consumer \<Rightarrow> consumer" where
  "produce [] s = s"
| "produce ((n, logs) # es) s =
     produce es
       (emit [EvEnqueue logs]
          (s\<lparr>empty_buffer_queue := remove1 (fst logs) (empty_buffer_queue s),
             buffer_size := (buffer_size s)(fst logs := n),
             filled_buffer_queue := Enqueue (filled_buffer_queue s) logs\<rparr>))"

definition interfere :: "interference \<Rightarrow> consumer \<Rightarrow> consumer" where
  "interfere i s =
     (let s1 = produce (enqueued i) s
      in s1\<lparr>do_persist := (do_persist s1 \<or> force_flush i),
            run_task := (run_task s1 \<and> \<not> terminate i)\<rparr>)"

text \<open>
  One pass through the loop body, as seen from outside: what happens while the consumer
  waits (lines 58 to 65), between the drain and the persist decision, and between the
  metrics block and the loop condition of line 104; the two clock readings (lines 81 and
  90); and what the two scoped timers measure, in whole microseconds (the timer class is
  not part of the sources).
\<close>
record iteration =
  wait_env :: interference
  write_time_us :: u64
  decide_env :: interference
  now_decide :: time_point
  now_persist :: time_point
  persist_time_us :: u64
  check_env :: interference

text \<open>The local variables of the loop that live across iterations.\<close>
record locals =
  write_us :: u64
  persist_us :: u64
  num_bytes :: u64
  num_buffers :: u64
  last_persist :: time_point

text \<open>
  \<^verbatim>\<open>std::chrono::duration_cast<std::chrono::milliseconds>\<close> of a duration in
  nanoseconds: integer division that truncates towards zero.
\<close>
definition duration_cast_ms :: "int \<Rightarrow> int" where
  "duration_cast_ms d = sgn d * (\<bar>d\<bar> div 1000000)"

text \<open>Lines 56 to 66.\<close>
definition wait_block :: "iteration \<Rightarrow> consumer \<Rightarrow> consumer" where
  "wait_block it s = emit [EvUnlock] (interfere (wait_env it) (emit [EvLock, EvWaitFor] s))"

text \<open>The condition of line 83, with \<open>timeout\<close> of lines 81 and 82.\<close>
definition persist_condition :: "iteration \<Rightarrow> locals \<Rightarrow> consumer \<Rightarrow> bool" where
  "persist_condition it l s =
     (let timeout = (duration_cast_ms (now_decide it - last_persist l) > persist_interval s)
      in timeout \<or> current_data_written s > persist_threshold s \<or> do_persist s \<or> \<not> run_task s)"

text \<open>Lines 85 to 95: the persist under the lock, then the broadcast.\<close>
definition persist_block :: "iteration \<Rightarrow> locals \<times> consumer \<Rightarrow> error + (locals \<times> consumer)" where
  "persist_block it ls =
     (case ls of (l, s) \<Rightarrow>
        (case PersistLogFile (emit [EvLock] s) of
           Inl e \<Rightarrow> Inl e
         | Inr (n, s1) \<Rightarrow>
             (let l1 = l\<lparr>num_buffers := n\<rparr>;
                  l2 = l1\<lparr>num_bytes := current_data_written s1\<rparr>;
                  l3 = l2\<lparr>last_persist := now_persist it\<rparr>;
                  s2 = s1\<lparr>current_data_written := 0\<rparr>;
                  s3 = s2\<lparr>do_persist := False\<rparr>
              in Inr (l3, emit [EvNotifyAll] (emit [EvUnlock] s3)))))"

text \<open>
  Lines 99 to 103. The conjunction of line 99 is short-circuit: \<^verbatim>\<open>ComponentEnabled\<close> is
  called only when the two tests before it hold.
\<close>
definition metrics_block :: "locals \<times> consumer \<Rightarrow> error + (locals \<times> consumer)" where
  "metrics_block ls =
     (case ls of (l, s) \<Rightarrow>
        if num_bytes l > 0 \<and> metrics_store s \<noteq> None
        then (case ComponentEnabled (metrics_store s) of
                Inl e \<Rightarrow> Inl e
              | Inr enabled \<Rightarrow>
                  if enabled
                  then (case RecordConsumerData (metrics_store s)
                               (write_us l) (persist_us l) (num_bytes l) (num_buffers l) s of
                          Inl e \<Rightarrow> Inl e
                        | Inr s' \<Rightarrow>
                            Inr (l\<lparr>write_us := 0, persist_us := 0, num_bytes := 0,
                                   num_buffers := 0\<rparr>, s'))
                  else Inr (l, s))
        else Inr (l, s))"

text \<open>
  The body of the do-while loop, lines 56 to 103, and then what other threads do before
  the loop condition is read. \<open>elapsed_us\<close> is the scoped timers' target: the second timer
  overwrites it only when the persist branch runs.
\<close>
definition loop_body :: "iteration \<Rightarrow> locals \<times> consumer \<Rightarrow> error + (locals \<times> consumer)" where
  "loop_body it ls =
     (case ls of (l, s) \<Rightarrow>
        (let s1 = wait_block it s;
             s2 = WriteBuffersToLogFile s1;
             l1 = l\<lparr>write_us := write_us l + write_time_us it\<rparr>;
             s3 = interfere (decide_env it) s2
         in case (if persist_condition it l1 s3
                  then (case persist_block it (l1, s3) of
                          Inl e \<Rightarrow> Inl e
                        | Inr ls' \<Rightarrow> Inr (persist_time_us it, ls'))
                  else Inr (write_time_us it, (l1, s3))) of
              Inl e \<Rightarrow> Inl e
            | Inr (elapsed_us, (l2, s4)) \<Rightarrow>
                (case metrics_block (l2\<lparr>persist_us := elapsed_us\<rparr>, s4) of
                   Inl e \<Rightarrow> Inl e
                 | Inr (l3, s5) \<Rightarrow> Inr (l3, interfere (check_env it) s5))))"

text \<open>
  The do-while loop. The list is the environment of the successive iterations; \<open>None\<close>
  says that the loop is still running when the list is used up.
\<close>
fun do_while :: "iteration list \<Rightarrow> locals \<times> consumer \<Rightarrow> (error + (locals \<times> consumer)) option"
  where
  "do_while [] ls = None"
| "do_while (it # its) ls =
     (case loop_body it ls of
        Inl e \<Rightarrow> Some (Inl e)
      | Inr ls' \<Rightarrow> if run_task (snd ls') then do_while its ls' else Some (Inr ls'))"

text \<open>Lines 105 to 107: the drain and the persist after the loop.\<close>
definition final_drain_persist :: "consumer \<Rightarrow> error + consumer" where
  "final_drain_persist s =
     (case PersistLogFile (WriteBuffersToLogFile s) of
        Inl e \<Rightarrow> Inl e
      | Inr (n, s') \<Rightarrow> Inr s')"

definition DiskLogConsumerTaskLoop ::
  "time_point \<Rightarrow> iteration list \<Rightarrow> consumer \<Rightarrow> (error + consumer) option" where
  "DiskLogConsumerTaskLoop start its s =
     (let l = \<lparr>write_us = 0, persist_us = 0, num_bytes = 0, num_buffers = 0,
               last_persist = start\<rparr>;
          s0 = s\<lparr>current_data_written := 0\<rparr>
      in case do_while its (l, s0) of
           None \<Rightarrow> None
         | Some (Inl e) \<Rightarrow> Some (Inl e)
         | Some (Inr (l', s1)) \<Rightarrow> Some (final_drain_persist s1))"

definition RunTask :: "time_point \<Rightarrow> iteration list \<Rightarrow> consumer \<Rightarrow> (error + consumer) option" where
  "RunTask start its s = DiskLogConsumerTaskLoop start its (s\<lparr>run_task := True\<rparr>)"

subsection \<open>Reading a trace\<close>

text \<open>The callbacks invoked, in the order of their invocation.\<close>
fun invoked :: "event list \<Rightarrow> callback list" where
  "invoked [] = []"
| "invoked (EvInvoke c # evs) = c # invoked evs"
| "invoked (_ # evs) = invoked evs"

text \<open>The entries enqueued on the filled queue, and the entries dequeued from it.\<close>
fun enqueued_entries :: "event list \<Rightarrow> serialized_logs list" where
  "enqueued_entries [] = []"
| "enqueued_entries (EvEnqueue logs # evs) = logs # enqueued_entries evs"
| "enqueued_entries (_ # evs) = enqueued_entries evs"

fun dequeued_entries :: "event list \<Rightarrow> serialized_logs list" where
  "dequeued_entries [] = []"
| "dequeued_entries (EvDequeue logs # evs) = logs # dequeued_entries evs"
| "dequeued_entries (_ # evs) = dequeued_entries evs"

text \<open>The callbacks of a list of entries, entry after entry.\<close>
definition callbacks_of :: "serialized_logs list \<Rightarrow> callback list" where
  "callbacks_of q = concat (map snd q)"

text \<open>The sum of the byte counts that the calls of \<^verbatim>\<open>FlushBuffer\<close> returned.\<close>
fun flushed_bytes :: "event list \<Rightarrow> u64" where
  "flushed_bytes [] = 0"
| "flushed_bytes (EvFlush b n # evs) = n + flushed_bytes evs"
| "flushed_bytes (_ # evs) = flushed_bytes evs"

fun persist_count :: "event list \<Rightarrow> nat" where
  "persist_count [] = 0"
| "persist_count (EvPersist b # evs) = Suc (persist_count evs)"
| "persist_count (_ # evs) = persist_count evs"

fun record_count :: "event list \<Rightarrow> nat" where
  "record_count [] = 0"
| "record_count (EvRecord w p b n # evs) = Suc (record_count evs)"
| "record_count (_ # evs) = record_count evs"

text \<open>
  Whether the persist lock is held after a run of events, given whether it was held
  before. \<^verbatim>\<open>wait_for\<close> returns with the lock held.
\<close>
fun lock_held :: "bool \<Rightarrow> event list \<Rightarrow> bool" where
  "lock_held h [] = h"
| "lock_held h (EvLock # evs) = lock_held True evs"
| "lock_held h (EvUnlock # evs) = lock_held False evs"
| "lock_held h (_ # evs) = lock_held h evs"

text \<open>
  \<open>in_persist p evs\<close>: whether the last event of \<open>evs\<close> is a persist or a callback
  invocation that follows one (\<open>p\<close> says so for the events before \<open>evs\<close>).
  \<open>callbacks_in_persist p evs\<close>: every callback invocation in \<open>evs\<close> comes right after a
  persist, with nothing but callback invocations in between.
\<close>
fun in_persist :: "bool \<Rightarrow> event list \<Rightarrow> bool" where
  "in_persist p [] = p"
| "in_persist p (EvPersist b # evs) = in_persist True evs"
| "in_persist p (EvInvoke c # evs) = in_persist p evs"
| "in_persist p (_ # evs) = in_persist False evs"

fun callbacks_in_persist :: "bool \<Rightarrow> event list \<Rightarrow> bool" where
  "callbacks_in_persist p [] = True"
| "callbacks_in_persist p (EvPersist b # evs) = callbacks_in_persist True evs"
| "callbacks_in_persist p (EvInvoke c # evs) = (p \<and> callbacks_in_persist p evs)"
| "callbacks_in_persist p (_ # evs) = callbacks_in_persist False evs"

text \<open>
  What draining a queue appends to the trace, and what it leaves in the buffers' store:
  entry after entry a dequeue and a flush that returns the bytes then staged in the
  entry's buffer.
\<close>
fun drain_events :: "serialized_logs list \<Rightarrow> (buffer_ptr \<Rightarrow> u64) \<Rightarrow> event list" where
  "drain_events [] sz = []"
| "drain_events (logs # q) sz =
     EvDequeue logs # EvFlush (fst logs) (sz (fst logs)) # drain_events q (sz(fst logs := 0))"

fun drained_sizes :: "serialized_logs list \<Rightarrow> (buffer_ptr \<Rightarrow> u64) \<Rightarrow> (buffer_ptr \<Rightarrow> u64)"
  where
  "drained_sizes [] sz = sz"
| "drained_sizes (logs # q) sz = drained_sizes q (sz(fst logs := 0))"

text \<open>The events that lie between two states of one run.\<close>
definition events_since :: "consumer \<Rightarrow> consumer \<Rightarrow> event list" where
  "events_since s s' = drop (length (trace s)) (trace s')"

text \<open>
  \<open>consumer_run s d s'\<close>: the run from \<open>s\<close> to \<open>s'\<close> appended the events \<open>d\<close>, the callbacks
  it invoked and the ones still pending are the ones that were pending and the ones of
  the entries it dequeued, the entries it dequeued and the ones still queued are the
  ones that were queued and the ones enqueued meanwhile, and the configuration is the
  same.
\<close>
definition consumer_run :: "consumer \<Rightarrow> event list \<Rightarrow> consumer \<Rightarrow> bool" where
  "consumer_run s d s' \<longleftrightarrow>
     trace s' = trace s @ d \<and>
     invoked d @ commit_callbacks s' = commit_callbacks s @ callbacks_of (dequeued_entries d) \<and>
     dequeued_entries d @ filled_buffer_queue s' = filled_buffer_queue s @ enqueued_entries d \<and>
     buffers s' = buffers s \<and>
     metrics_store s' = metrics_store s \<and>
     persist_interval s' = persist_interval s \<and>
     persist_threshold s' = persist_threshold s"

text \<open>Whether \<^verbatim>\<open>Terminate\<close> runs at some point of an iteration.\<close>
definition terminates_in :: "iteration \<Rightarrow> bool" where
  "terminates_in it = (terminate (wait_env it) \<or> terminate (decide_env it) \<or> terminate (check_env it))"

text \<open>The entries that the serializer enqueues at one point of an iteration.\<close>
definition arrivals :: "interference \<Rightarrow> serialized_logs list" where
  "arrivals i = map snd (enqueued i)"

text \<open>The state in which the condition of line 83 is evaluated.\<close>
definition decision_state :: "iteration \<Rightarrow> consumer \<Rightarrow> consumer" where
  "decision_state it s = interfere (decide_env it) (WriteBuffersToLogFile (wait_block it s))"

subsection \<open>A run of the task\<close>

text \<open>
  A task with two buffers, one of them filled with 100 bytes and queued with two
  callbacks, and one callback pending. During the first wait the serializer enqueues the
  other buffer with 200 bytes and one callback, and a force-flush caller sets the flag
  before the persist decision. In the second iteration an entry arrives after the drain,
  and \<^verbatim>\<open>Terminate\<close> runs before the loop condition is read.
\<close>
definition quiet :: interference where
  "quiet = \<lparr>enqueued = [], force_flush = False, terminate = False\<rparr>"

definition ex_consumer :: consumer where
  "ex_consumer =
     \<lparr>run_task = False, do_persist = False,
      filled_buffer_queue = [(1, [(7, 70), (8, 80)])],
      empty_buffer_queue = [0], buffers = [0, 1],
      buffer_size = (\<lambda>b. if b = 1 then 100 else 0),
      commit_callbacks = [(5, 50)], current_data_written = 0,
      persist_interval = 10, persist_threshold = 1048576,
      metrics_store = Some \<lparr>logging_enabled = True\<rparr>, trace = []\<rparr>"

definition ex_first :: iteration where
  "ex_first =
     \<lparr>wait_env = \<lparr>enqueued = [(200, (0, [(9, 90)]))], force_flush = False, terminate = False\<rparr>,
      write_time_us = 3,
      decide_env = \<lparr>enqueued = [], force_flush = True, terminate = False\<rparr>,
      now_decide = 5000000, now_persist = 5000100, persist_time_us = 4,
      check_env = quiet\<rparr>"

definition ex_second :: iteration where
  "ex_second =
     \<lparr>wait_env = quiet, write_time_us = 2,
      decide_env = \<lparr>enqueued = [(50, (1, [(6, 60)]))], force_flush = False, terminate = False\<rparr>,
      now_decide = 6000000, now_persist = 6000100, persist_time_us = 1,
      check_env = \<lparr>enqueued = [], force_flush = False, terminate = True\<rparr>\<rparr>"

definition ex_schedule :: "iteration list" where
  "ex_schedule = [ex_first, ex_second]"

text \<open>
  A task with nothing to do, and an iteration in which the clock reads 10.9 milliseconds
  after the last persist.
\<close>
definition ex_idle :: consumer where
  "ex_idle =
     \<lparr>run_task = True, do_persist = False, filled_buffer_queue = [],
      empty_buffer_queue = [0, 1], buffers = [0, 1], buffer_size = (\<lambda>b. 0),
      commit_callbacks = [], current_data_written = 0,
      persist_interval = 10, persist_threshold = 1048576,
      metrics_store = None, trace = []\<rparr>"

definition ex_locals :: locals where
  "ex_locals =
     \<lparr>write_us = 0, persist_us = 0, num_bytes = 0, num_buffers = 0, last_persist = 0\<rparr>"

definition ex_measured :: locals where
  "ex_measured =
     \<lparr>write_us = 3, persist_us = 4, num_bytes = 300, num_buffers = 4, last_persist = 5000100\<rparr>"

definition ex_late :: iteration where
  "ex_late =
     \<lparr>wait_env = quiet, write_time_us = 1, decide_env = quiet,
      now_decide = 10900000, now_persist = 10900100, persist_time_us = 1,
      check_env = quiet\<rparr>"

subsection \<open>The persist decision as the specification words it\<close>

text \<open>
  The specification's condition: the time elapsed since the last persist exceeds the
  persist interval, or the bytes written since exceed the threshold, or a persist is
  forced, or the task no longer runs. The elapsed time is the difference of the two
  clock readings, in nanoseconds, and the interval is in milliseconds.
\<close>
definition persist_condition_as_specified :: "iteration \<Rightarrow> locals \<Rightarrow> consumer \<Rightarrow> bool" where
  "persist_condition_as_specified it l s =
     (now_decide it - last_persist l > persist_interval s * 1000000 \<or>
      current_data_written s > persist_threshold s \<or> do_persist s \<or> \<not> run_task s)"

section \<open>Properties\<close>

subsection \<open>Traces\<close>

lemma invoked_append [simp]: "invoked (xs @ ys) = invoked xs @ invoked ys"
  by (induction xs rule: invoked.induct) simp_all

lemma enqueued_entries_append [simp]:
  "enqueued_entries (xs @ ys) = enqueued_entries xs @ enqueued_entries ys"
  by (induction xs rule: enqueued_entries.induct) simp_all

lemma dequeued_entries_append [simp]:
  "dequeued_entries (xs @ ys) = dequeued_entries xs @ dequeued_entries ys"
  by (induction xs rule: dequeued_entries.induct) simp_all

lemma flushed_bytes_append [simp]:
  "flushed_bytes (xs @ ys) = flushed_bytes xs + flushed_bytes ys"
  by (induction xs rule: flushed_bytes.induct) (simp_all add: add.assoc)

lemma persist_count_append [simp]:
  "persist_count (xs @ ys) = persist_count xs + persist_count ys"
  by (induction xs rule: persist_count.induct) simp_all

lemma record_count_append [simp]:
  "record_count (xs @ ys) = record_count xs + record_count ys"
  by (induction xs rule: record_count.induct) simp_all

lemma lock_held_append [simp]: "lock_held h (xs @ ys) = lock_held (lock_held h xs) ys"
  by (induction h xs rule: lock_held.induct) simp_all

lemma in_persist_append [simp]: "in_persist p (xs @ ys) = in_persist (in_persist p xs) ys"
  by (induction p xs rule: in_persist.induct) simp_all

lemma callbacks_in_persist_append [simp]:
  "callbacks_in_persist p (xs @ ys) =
     (callbacks_in_persist p xs \<and> callbacks_in_persist (in_persist p xs) ys)"
  by (induction p xs rule: callbacks_in_persist.induct) auto

lemma callbacks_of_append [simp]: "callbacks_of (xs @ ys) = callbacks_of xs @ callbacks_of ys"
  by (simp add: callbacks_of_def)

lemma callbacks_of_simps [simp]:
  "callbacks_of [] = []" "callbacks_of (logs # q) = snd logs @ callbacks_of q"
  by (simp_all add: callbacks_of_def)

text \<open>The events of a drain.\<close>

lemma drain_events_reads [simp]:
  "invoked (drain_events q sz) = []"
  "enqueued_entries (drain_events q sz) = []"
  "dequeued_entries (drain_events q sz) = q"
  "persist_count (drain_events q sz) = 0"
  "record_count (drain_events q sz) = 0"
  "lock_held h (drain_events q sz) = h"
  by (induction q sz rule: drain_events.induct) simp_all

lemma drain_events_persist [simp]:
  "callbacks_in_persist p (drain_events q sz)"
  "in_persist p (drain_events q sz) = (p \<and> q = [])"
  by (induction q sz arbitrary: p rule: drain_events.induct) simp_all


lemma drain_events_distinct:
  "distinct (map fst q) \<Longrightarrow>
     drain_events q sz = concat (map (\<lambda>logs. [EvDequeue logs, EvFlush (fst logs) (sz (fst logs))]) q)"
proof (induction q sz rule: drain_events.induct)
  case (1 sz)
  then show ?case by simp
next
  case (2 logs q sz)
  from "2.prems" have d: "distinct (map fst q)" and n: "fst logs \<notin> fst ` set q"
    by auto
  have eq: "map (\<lambda>l. [EvDequeue l, EvFlush (fst l) ((sz(fst logs := 0)) (fst l))]) q =
        map (\<lambda>l. [EvDequeue l, EvFlush (fst l) (sz (fst l))]) q"
    using n by (intro map_cong) (auto simp: image_iff)
  show ?case
    using "2.IH" [OF d] eq by (simp del: fun_upd_apply)
qed

text \<open>The events of the callbacks.\<close>

lemma invoke_events_reads [simp]:
  "invoked (map EvInvoke cs) = cs"
  "enqueued_entries (map EvInvoke cs) = []"
  "dequeued_entries (map EvInvoke cs) = []"
  "persist_count (map EvInvoke cs) = 0"
  "record_count (map EvInvoke cs) = 0"
  "lock_held h (map EvInvoke cs) = h"
  "in_persist p (map EvInvoke cs) = p"
  "callbacks_in_persist p (map EvInvoke cs) = (p \<or> cs = [])"
  "flushed_bytes (map EvInvoke cs) = 0"
  by (induction cs) auto

text \<open>The events of the serializer.\<close>

lemma enqueue_events_reads [simp]:
  "invoked (map EvEnqueue q) = []"
  "enqueued_entries (map EvEnqueue q) = q"
  "dequeued_entries (map EvEnqueue q) = []"
  "persist_count (map EvEnqueue q) = 0"
  "record_count (map EvEnqueue q) = 0"
  "lock_held h (map EvEnqueue q) = h"
  "in_persist p (map EvEnqueue q) = (p \<and> q = [])"
  "callbacks_in_persist p (map EvEnqueue q)"
  "flushed_bytes (map EvEnqueue q) = 0"
  by (induction q arbitrary: p) auto

subsection \<open>WriteBuffersToLogFile\<close>

lemma write_buffer_Cons:
  "filled_buffer_queue s = logs # q \<Longrightarrow>
   write_buffer s =
     s\<lparr>filled_buffer_queue := q,
       buffer_size := (buffer_size s)(fst logs := 0),
       trace := trace s @ [EvDequeue logs, EvFlush (fst logs) (buffer_size s (fst logs))],
       current_data_written := current_data_written s + buffer_size s (fst logs),
       commit_callbacks := commit_callbacks s @ snd logs,
       empty_buffer_queue := empty_buffer_queue s @ [fst logs]\<rparr>"
  by (simp add: write_buffer_def Dequeue_def FlushBuffer_def emit_def Enqueue_def)

lemma WriteBuffersToLogFile_eq:
  "WriteBuffersToLogFile s =
     s\<lparr>filled_buffer_queue := [],
       buffer_size := drained_sizes (filled_buffer_queue s) (buffer_size s),
       trace := trace s @ drain_events (filled_buffer_queue s) (buffer_size s),
       current_data_written :=
         current_data_written s +
         flushed_bytes (drain_events (filled_buffer_queue s) (buffer_size s)),
       commit_callbacks := commit_callbacks s @ callbacks_of (filled_buffer_queue s),
       empty_buffer_queue := empty_buffer_queue s @ map fst (filled_buffer_queue s)\<rparr>"
proof (induction "filled_buffer_queue s" arbitrary: s)
  case Nil
  then show ?case
    by (subst WriteBuffersToLogFile.simps) (simp add: Empty_def)
next
  case (Cons logs q)
  have fq: "filled_buffer_queue s = logs # q"
    using Cons.hyps(2) by simp
  note step = write_buffer_Cons [OF fq]
  have q: "q = filled_buffer_queue (write_buffer s)"
    by (simp add: step)
  have "WriteBuffersToLogFile s = WriteBuffersToLogFile (write_buffer s)"
    by (subst WriteBuffersToLogFile.simps) (simp add: Empty_def fq)
  also note Cons.hyps(1) [OF q]
  finally show ?case
    by (simp add: step fq add.assoc)
qed

subsection \<open>PersistLogFile\<close>

lemma run_callbacks_eq: "run_callbacks cs s = emit (map EvInvoke cs) s"
  by (induction cs arbitrary: s) (simp_all add: emit_def invoke_def)

lemma PersistLogFile_eq:
  "buffers s \<noteq> [] \<Longrightarrow>
   PersistLogFile s =
     Inr (of_nat (length (commit_callbacks s)),
          s\<lparr>trace := trace s @ EvPersist (hd (buffers s)) # map EvInvoke (commit_callbacks s),
            commit_callbacks := []\<rparr>)"
  by (simp add: PersistLogFile_def Persist_def run_callbacks_eq emit_def)

lemma PersistLogFile_empty: "buffers s = [] \<Longrightarrow> PersistLogFile s = Inl AssertionFailure"
  by (simp add: PersistLogFile_def)

lemma PersistLogFile_Inr:
  "PersistLogFile s = Inr r \<Longrightarrow> buffers s \<noteq> []"
  by (auto simp: PersistLogFile_def split: if_splits)

subsection \<open>Other threads\<close>

lemma produce_eq:
  "produce es s =
     s\<lparr>empty_buffer_queue := empty_buffer_queue (produce es s),
       buffer_size := buffer_size (produce es s),
       filled_buffer_queue := filled_buffer_queue s @ map snd es,
       trace := trace s @ map EvEnqueue (map snd es)\<rparr>"
  by (induction es s rule: produce.induct) (simp_all add: emit_def Enqueue_def)


lemma interfere_eq:
  "interfere i s =
     s\<lparr>empty_buffer_queue := empty_buffer_queue (interfere i s),
       buffer_size := buffer_size (interfere i s),
       filled_buffer_queue := filled_buffer_queue s @ arrivals i,
       trace := trace s @ map EvEnqueue (arrivals i),
       do_persist := (do_persist s \<or> force_flush i),
       run_task := (run_task s \<and> \<not> terminate i)\<rparr>"
  by (subst (1 2 3) interfere_def, subst produce_eq) (simp add: Let_def arrivals_def)


lemma interfere_fields [simp]:
  "filled_buffer_queue (interfere i s) = filled_buffer_queue s @ arrivals i"
  "trace (interfere i s) = trace s @ map EvEnqueue (arrivals i)"
  "do_persist (interfere i s) = (do_persist s \<or> force_flush i)"
  "run_task (interfere i s) = (run_task s \<and> \<not> terminate i)"
  "commit_callbacks (interfere i s) = commit_callbacks s"
  "buffers (interfere i s) = buffers s"
  "current_data_written (interfere i s) = current_data_written s"
  "metrics_store (interfere i s) = metrics_store s"
  "persist_interval (interfere i s) = persist_interval s"
  "persist_threshold (interfere i s) = persist_threshold s"
  by (subst interfere_eq, simp)+

lemma WriteBuffersToLogFile_fields [simp]:
  "filled_buffer_queue (WriteBuffersToLogFile s) = []"
  "trace (WriteBuffersToLogFile s) =
     trace s @ drain_events (filled_buffer_queue s) (buffer_size s)"
  "commit_callbacks (WriteBuffersToLogFile s) =
     commit_callbacks s @ callbacks_of (filled_buffer_queue s)"
  "empty_buffer_queue (WriteBuffersToLogFile s) =
     empty_buffer_queue s @ map fst (filled_buffer_queue s)"
  "current_data_written (WriteBuffersToLogFile s) =
     current_data_written s +
     flushed_bytes (drain_events (filled_buffer_queue s) (buffer_size s))"
  "buffer_size (WriteBuffersToLogFile s) = drained_sizes (filled_buffer_queue s) (buffer_size s)"
  "do_persist (WriteBuffersToLogFile s) = do_persist s"
  "run_task (WriteBuffersToLogFile s) = run_task s"
  "buffers (WriteBuffersToLogFile s) = buffers s"
  "metrics_store (WriteBuffersToLogFile s) = metrics_store s"
  "persist_interval (WriteBuffersToLogFile s) = persist_interval s"
  "persist_threshold (WriteBuffersToLogFile s) = persist_threshold s"
  by (subst WriteBuffersToLogFile_eq, simp)+

lemma emit_fields [simp]:
  "trace (emit evs s) = trace s @ evs"
  "filled_buffer_queue (emit evs s) = filled_buffer_queue s"
  "commit_callbacks (emit evs s) = commit_callbacks s"
  "empty_buffer_queue (emit evs s) = empty_buffer_queue s"
  "current_data_written (emit evs s) = current_data_written s"
  "buffer_size (emit evs s) = buffer_size s"
  "do_persist (emit evs s) = do_persist s"
  "run_task (emit evs s) = run_task s"
  "buffers (emit evs s) = buffers s"
  "metrics_store (emit evs s) = metrics_store s"
  "persist_interval (emit evs s) = persist_interval s"
  "persist_threshold (emit evs s) = persist_threshold s"
  by (simp_all add: emit_def)

subsection \<open>The blocks of the loop body\<close>

lemma persist_block_eq:
  "buffers s \<noteq> [] \<Longrightarrow>
   persist_block it (l, s) =
     Inr (l\<lparr>num_buffers := of_nat (length (commit_callbacks s)),
            num_bytes := current_data_written s,
            last_persist := now_persist it\<rparr>,
          s\<lparr>trace := trace s @ EvLock # EvPersist (hd (buffers s)) #
                   map EvInvoke (commit_callbacks s) @ [EvUnlock, EvNotifyAll],
            commit_callbacks := [],
            current_data_written := 0,
            do_persist := False\<rparr>)"
  by (simp add: persist_block_def PersistLogFile_eq emit_def)

lemma persist_block_empty: "buffers s = [] \<Longrightarrow> persist_block it (l, s) = Inl AssertionFailure"
  by (simp add: persist_block_def PersistLogFile_empty)

text \<open>Whether line 101 runs.\<close>

lemma metrics_block_eq:
  "metrics_block (l, s) =
     (if num_bytes l > 0 \<and> (\<exists>m. metrics_store s = Some m \<and> logging_enabled m)
      then Inr (l\<lparr>write_us := 0, persist_us := 0, num_bytes := 0, num_buffers := 0\<rparr>,
                emit [EvRecord (write_us l) (persist_us l) (num_bytes l) (num_buffers l)] s)
      else Inr (l, s))"
  by (auto simp: metrics_block_def ComponentEnabled_def RecordConsumerData_def
           split: option.splits)

lemma consumer_run_events: "consumer_run s d s' \<Longrightarrow> events_since s s' = d"
  by (simp add: consumer_run_def events_since_def)

lemma consumer_run_refl: "consumer_run s [] s"
  by (simp add: consumer_run_def)

lemma consumer_run_trans:
  assumes "consumer_run s d1 s1" and "consumer_run s1 d2 s2"
  shows "consumer_run s (d1 @ d2) s2"
proof -
  have "invoked (d1 @ d2) @ commit_callbacks s2 =
        invoked d1 @ commit_callbacks s1 @ callbacks_of (dequeued_entries d2)"
    using assms(2) by (simp add: consumer_run_def)
  also have "\<dots> = commit_callbacks s @ callbacks_of (dequeued_entries (d1 @ d2))"
    using assms(1) by (simp add: consumer_run_def)
  finally have cb: "invoked (d1 @ d2) @ commit_callbacks s2 =
        commit_callbacks s @ callbacks_of (dequeued_entries (d1 @ d2))" .
  have "dequeued_entries (d1 @ d2) @ filled_buffer_queue s2 =
        dequeued_entries d1 @ filled_buffer_queue s1 @ enqueued_entries d2"
    using assms(2) by (simp add: consumer_run_def)
  also have "\<dots> = filled_buffer_queue s @ enqueued_entries (d1 @ d2)"
    using assms(1) by (simp add: consumer_run_def)
  finally have q: "dequeued_entries (d1 @ d2) @ filled_buffer_queue s2 =
        filled_buffer_queue s @ enqueued_entries (d1 @ d2)" .
  show ?thesis
    using assms cb q by (simp add: consumer_run_def)
qed

lemma consumer_run_interfere:
  "consumer_run s (map EvEnqueue (arrivals i)) (interfere i s)"
  by (simp add: consumer_run_def)

lemma consumer_run_drain:
  "consumer_run s (drain_events (filled_buffer_queue s) (buffer_size s)) (WriteBuffersToLogFile s)"
  by (simp add: consumer_run_def)

lemma wait_block_run:
  "consumer_run s
     (EvLock # EvWaitFor # map EvEnqueue (arrivals (wait_env it)) @ [EvUnlock])
     (wait_block it s)"
  by (simp add: consumer_run_def wait_block_def)

lemma decision_state_run:
  "\<exists>d. consumer_run s (EvLock # d) (decision_state it s) \<and>
       callbacks_in_persist False d \<and> \<not> in_persist False d \<and> \<not> lock_held True d \<and>
       persist_count d = 0 \<and> record_count d = 0"
proof -
  let ?s1 = "wait_block it s"
  let ?s2 = "WriteBuffersToLogFile ?s1"
  let ?d1 = "EvWaitFor # map EvEnqueue (arrivals (wait_env it)) @ [EvUnlock]"
  let ?d2 = "drain_events (filled_buffer_queue ?s1) (buffer_size ?s1)"
  let ?d3 = "map EvEnqueue (arrivals (decide_env it))"
  have "consumer_run s ((EvLock # ?d1) @ ?d2 @ ?d3) (decision_state it s)"
    unfolding decision_state_def
    by (rule consumer_run_trans [OF wait_block_run
          consumer_run_trans [OF consumer_run_drain consumer_run_interfere]])
  then have "consumer_run s (EvLock # (?d1 @ ?d2 @ ?d3)) (decision_state it s)"
    by simp
  moreover have "callbacks_in_persist False (?d1 @ ?d2 @ ?d3)"
    "\<not> in_persist False (?d1 @ ?d2 @ ?d3)" "\<not> lock_held True (?d1 @ ?d2 @ ?d3)"
    "persist_count (?d1 @ ?d2 @ ?d3) = 0" "record_count (?d1 @ ?d2 @ ?d3) = 0"
    by simp_all
  ultimately show ?thesis
    by blast
qed

lemma persist_block_run:
  assumes "persist_block it (l, s) = Inr (l', s')"
  shows "consumer_run s
           (EvLock # EvPersist (hd (buffers s)) # map EvInvoke (commit_callbacks s) @
            [EvUnlock, EvNotifyAll]) s'"
    and "run_task s' = run_task s"
proof -
  have b: "buffers s \<noteq> []"
    using assms by (auto simp: persist_block_empty)
  show "consumer_run s
           (EvLock # EvPersist (hd (buffers s)) # map EvInvoke (commit_callbacks s) @
            [EvUnlock, EvNotifyAll]) s'"
    using assms by (auto simp: persist_block_eq [OF b] consumer_run_def)
  show "run_task s' = run_task s"
    using assms by (auto simp: persist_block_eq [OF b])
qed

lemma metrics_block_total: "\<exists>l' s'. metrics_block (l, s) = Inr (l', s')"
  by (simp add: metrics_block_eq)

lemma metrics_block_run:
  assumes "metrics_block (l, s) = Inr (l', s')"
  shows "\<exists>d. consumer_run s d s' \<and> callbacks_in_persist False d \<and> \<not> in_persist False d \<and>
             \<not> lock_held False d \<and> persist_count d = 0 \<and> run_task s' = run_task s \<and>
             record_count d \<le> 1 \<and>
             (record_count d = 1 \<longrightarrow>
                0 < num_bytes l \<and> (\<exists>m. metrics_store s = Some m \<and> logging_enabled m) \<and>
                write_us l' = 0 \<and> persist_us l' = 0 \<and> num_bytes l' = 0 \<and> num_buffers l' = 0)"
proof (cases "num_bytes l > 0 \<and> (\<exists>m. metrics_store s = Some m \<and> logging_enabled m)")
  case True
  then have "s' = emit [EvRecord (write_us l) (persist_us l) (num_bytes l) (num_buffers l)] s"
    and "l' = l\<lparr>write_us := 0, persist_us := 0, num_bytes := 0, num_buffers := 0\<rparr>"
    using assms unfolding metrics_block_eq by (auto split: if_splits)
  then have "consumer_run s [EvRecord (write_us l) (persist_us l) (num_bytes l) (num_buffers l)] s'"
    "run_task s' = run_task s"
    "write_us l' = 0 \<and> persist_us l' = 0 \<and> num_bytes l' = 0 \<and> num_buffers l' = 0"
    by (simp_all add: consumer_run_def)
  then show ?thesis
    using True
    by (intro exI [of _ "[EvRecord (write_us l) (persist_us l) (num_bytes l) (num_buffers l)]"])
       simp
next
  case False
  then have "s' = s"
    using assms unfolding metrics_block_eq by (auto split: if_splits)
  then show ?thesis
    by (intro exI [of _ "[]"]) (simp add: consumer_run_refl)
qed

lemma loop_body_unfold:
  "loop_body it (l, s) =
     (case (if persist_condition it (l\<lparr>write_us := write_us l + write_time_us it\<rparr>)
                 (decision_state it s)
            then (case persist_block it (l\<lparr>write_us := write_us l + write_time_us it\<rparr>,
                                          decision_state it s) of
                    Inl e \<Rightarrow> Inl e
                  | Inr ls' \<Rightarrow> Inr (persist_time_us it, ls'))
            else Inr (write_time_us it, (l\<lparr>write_us := write_us l + write_time_us it\<rparr>,
                                          decision_state it s))) of
        Inl e \<Rightarrow> Inl e
      | Inr (elapsed_us, (l2, s4)) \<Rightarrow>
          (case metrics_block (l2\<lparr>persist_us := elapsed_us\<rparr>, s4) of
             Inl e \<Rightarrow> Inl e
           | Inr (l3, s5) \<Rightarrow> Inr (l3, interfere (check_env it) s5)))"
  by (simp add: loop_body_def decision_state_def Let_def)

lemma loop_body_run:
  assumes "loop_body it (l, s) = Inr (l', s')"
  shows "\<exists>d. consumer_run s (EvLock # d) s' \<and>
             callbacks_in_persist False d \<and> \<not> in_persist False d \<and> \<not> lock_held True d \<and>
             persist_count d =
               (if persist_condition it (l\<lparr>write_us := write_us l + write_time_us it\<rparr>)
                     (decision_state it s) then 1 else 0) \<and>
             run_task s' = (run_task s \<and> \<not> terminates_in it) \<and>
             record_count d \<le> 1 \<and>
             (record_count d = 1 \<longrightarrow>
                (\<exists>m. metrics_store s = Some m \<and> logging_enabled m) \<and>
                write_us l' = 0 \<and> persist_us l' = 0 \<and> num_bytes l' = 0 \<and> num_buffers l' = 0)"
proof -
  define l1 where "l1 = l\<lparr>write_us := write_us l + write_time_us it\<rparr>"
  define s3 where "s3 = decision_state it s"
  define mid where "mid =
    (if persist_condition it l1 s3
     then (case persist_block it (l1, s3) of
             Inl e \<Rightarrow> Inl e | Inr ls' \<Rightarrow> Inr (persist_time_us it, ls'))
     else Inr (write_time_us it, (l1, s3)))"
  have unfold: "loop_body it (l, s) =
     (case mid of
        Inl e \<Rightarrow> Inl e
      | Inr (elapsed_us, (l2, s4)) \<Rightarrow>
          (case metrics_block (l2\<lparr>persist_us := elapsed_us\<rparr>, s4) of
             Inl e \<Rightarrow> Inl e
           | Inr (l3, s5) \<Rightarrow> Inr (l3, interfere (check_env it) s5)))"
    unfolding mid_def l1_def s3_def by (rule loop_body_unfold)
  obtain e l2 s4 where mid: "mid = Inr (e, (l2, s4))"
    using assms unfolding unfold by (cases mid) auto
  obtain l3 s5 where met: "metrics_block (l2\<lparr>persist_us := e\<rparr>, s4) = Inr (l3, s5)"
    using metrics_block_total [of "l2\<lparr>persist_us := e\<rparr>" s4] by blast
  have s': "s' = interfere (check_env it) s5" and l': "l' = l3"
    using assms unfolding unfold by (simp_all add: mid met)
  obtain d3 where r3: "consumer_run s (EvLock # d3) s3"
    and shape3: "callbacks_in_persist False d3" "\<not> in_persist False d3" "\<not> lock_held True d3"
      "persist_count d3 = 0" "record_count d3 = 0"
    using decision_state_run [of s it] unfolding s3_def by blast
  have rt3: "run_task s3 = (run_task s \<and> \<not> terminate (wait_env it) \<and> \<not> terminate (decide_env it))"
    by (simp add: s3_def decision_state_def wait_block_def)
  have "\<exists>dp. consumer_run s3 dp s4 \<and> callbacks_in_persist False dp \<and> \<not> in_persist False dp \<and>
          \<not> lock_held False dp \<and> persist_count dp = (if persist_condition it l1 s3 then 1 else 0) \<and>
          run_task s4 = run_task s3 \<and> record_count dp = 0"
  proof (cases "persist_condition it l1 s3")
    case True
    then have pb: "persist_block it (l1, s3) = Inr (l2, s4)"
      using mid unfolding mid_def by (auto split: sum.splits)
    let ?dp = "EvLock # EvPersist (hd (buffers s3)) # map EvInvoke (commit_callbacks s3) @
            [EvUnlock, EvNotifyAll]"
    have "consumer_run s3 ?dp s4" "run_task s4 = run_task s3"
      using persist_block_run [OF pb] by simp_all
    then show ?thesis
      using True by (intro exI [of _ ?dp]) simp
  next
    case False
    then have "s4 = s3"
      using mid unfolding mid_def by simp
    then show ?thesis
      using False by (intro exI [of _ "[]"]) (simp add: consumer_run_refl)
  qed
  then obtain dp where rp: "consumer_run s3 dp s4"
    and shapep: "callbacks_in_persist False dp" "\<not> in_persist False dp" "\<not> lock_held False dp"
      "persist_count dp = (if persist_condition it l1 s3 then 1 else 0)" "record_count dp = 0"
    and rt4: "run_task s4 = run_task s3"
    by blast
  obtain dm where rm: "consumer_run s4 dm s5"
    and shapem: "callbacks_in_persist False dm" "\<not> in_persist False dm" "\<not> lock_held False dm"
      "persist_count dm = 0"
    and rt5: "run_task s5 = run_task s4"
    and rec: "record_count dm \<le> 1"
      "record_count dm = 1 \<longrightarrow>
         (\<exists>m. metrics_store s4 = Some m \<and> logging_enabled m) \<and>
         write_us l3 = 0 \<and> persist_us l3 = 0 \<and> num_bytes l3 = 0 \<and> num_buffers l3 = 0"
    using metrics_block_run [OF met] by blast
  have ms: "metrics_store s4 = metrics_store s"
    using r3 rp by (simp add: consumer_run_def)
  let ?de = "map EvEnqueue (arrivals (check_env it))"
  have re: "consumer_run s5 ?de s'"
    unfolding s' by (rule consumer_run_interfere)
  have "consumer_run s ((EvLock # d3) @ dp @ dm @ ?de) s'"
    by (rule consumer_run_trans [OF r3 consumer_run_trans [OF rp consumer_run_trans [OF rm re]]])
  then have "consumer_run s (EvLock # (d3 @ dp @ dm @ ?de)) s'"
    by simp
  moreover have "callbacks_in_persist False (d3 @ dp @ dm @ ?de)"
    "\<not> in_persist False (d3 @ dp @ dm @ ?de)" "\<not> lock_held True (d3 @ dp @ dm @ ?de)"
    "persist_count (d3 @ dp @ dm @ ?de) = (if persist_condition it l1 s3 then 1 else 0)"
    using shape3 shapep shapem by simp_all
  moreover have "run_task s' = (run_task s \<and> \<not> terminates_in it)"
    unfolding s' by (auto simp: rt5 rt4 rt3 terminates_in_def)
  moreover have "record_count (d3 @ dp @ dm @ ?de) = record_count dm"
    using shape3 shapep by simp
  ultimately show ?thesis
    using rec unfolding l1_def s3_def l' ms by auto
qed


lemma loop_body_total:
  assumes "buffers s \<noteq> []"
  shows "\<exists>l' s'. loop_body it (l, s) = Inr (l', s')"
proof -
  have b: "buffers (decision_state it s) \<noteq> []"
    using assms by (simp add: decision_state_def wait_block_def)
  show ?thesis
    unfolding loop_body_unfold
    by (simp add: persist_block_eq [OF b] metrics_block_eq)
qed

lemma do_while_run:
  "do_while its (l, s) = Some (Inr (l', s')) \<Longrightarrow>
     \<exists>d. consumer_run s d s' \<and> callbacks_in_persist False d \<and> \<not> in_persist False d \<and>
         \<not> lock_held False d \<and> \<not> run_task s'"
proof (induction its arbitrary: l s)
  case Nil
  then show ?case by simp
next
  case (Cons it its)
  from Cons.prems obtain l1 s1 where body: "loop_body it (l, s) = Inr (l1, s1)"
    by (cases "loop_body it (l, s)") auto
  from loop_body_run [OF body] obtain d1 where r1: "consumer_run s (EvLock # d1) s1"
    and shape1: "callbacks_in_persist False d1" "\<not> in_persist False d1" "\<not> lock_held True d1"
    by blast
  show ?case
  proof (cases "run_task s1")
    case True
    then have "do_while its (l1, s1) = Some (Inr (l', s'))"
      using Cons.prems body by simp
    from Cons.IH [OF this] obtain d2 where r2: "consumer_run s1 d2 s'"
      and shape2: "callbacks_in_persist False d2" "\<not> in_persist False d2" "\<not> lock_held False d2"
        "\<not> run_task s'"
      by blast
    have "consumer_run s ((EvLock # d1) @ d2) s'"
      by (rule consumer_run_trans [OF r1 r2])
    moreover have "callbacks_in_persist False ((EvLock # d1) @ d2)"
      "\<not> in_persist False ((EvLock # d1) @ d2)" "\<not> lock_held False ((EvLock # d1) @ d2)"
      using shape1 shape2 by simp_all
    ultimately show ?thesis
      using shape2(4) by blast
  next
    case False
    then have "s' = s1"
      using Cons.prems body by simp
    moreover have "callbacks_in_persist False (EvLock # d1)"
      "\<not> in_persist False (EvLock # d1)" "\<not> lock_held False (EvLock # d1)"
      using shape1 by simp_all
    ultimately show ?thesis
      using r1 False by blast
  qed
qed

lemma do_while_total:
  "buffers s \<noteq> [] \<Longrightarrow> \<exists>it\<in>set its. terminates_in it \<Longrightarrow>
     \<exists>l' s'. do_while its (l, s) = Some (Inr (l', s'))"
proof (induction its arbitrary: l s)
  case Nil
  then show ?case by simp
next
  case (Cons it its)
  from loop_body_total [OF Cons.prems(1)] obtain l1 s1
    where body: "loop_body it (l, s) = Inr (l1, s1)"
    by blast
  from loop_body_run [OF body] obtain d1 where r1: "consumer_run s (EvLock # d1) s1"
    and rt: "run_task s1 = (run_task s \<and> \<not> terminates_in it)"
    by blast
  show ?case
  proof (cases "run_task s1")
    case True
    then have "\<exists>it\<in>set its. terminates_in it"
      using rt Cons.prems(2) by auto
    moreover have "buffers s1 \<noteq> []"
      using r1 Cons.prems(1) by (simp add: consumer_run_def)
    ultimately show ?thesis
      using Cons.IH [of s1 l1] body True by simp
  next
    case False
    then show ?thesis
      using body by simp
  qed
qed

lemma final_drain_persist_eq:
  "buffers s \<noteq> [] \<Longrightarrow>
   final_drain_persist s =
     Inr ((WriteBuffersToLogFile s)
          \<lparr>trace := trace s @ drain_events (filled_buffer_queue s) (buffer_size s) @
                  EvPersist (hd (buffers s)) #
                  map EvInvoke (commit_callbacks s @ callbacks_of (filled_buffer_queue s)),
           commit_callbacks := []\<rparr>)"
  by (simp add: final_drain_persist_def PersistLogFile_eq)

lemma final_drain_persist_empty:
  "buffers s = [] \<Longrightarrow> final_drain_persist s = Inl AssertionFailure"
  by (simp add: final_drain_persist_def PersistLogFile_empty)

lemma final_drain_persist_run:
  assumes "final_drain_persist s = Inr s'"
  shows "consumer_run s
           (drain_events (filled_buffer_queue s) (buffer_size s) @
            EvPersist (hd (buffers s)) #
            map EvInvoke (commit_callbacks s @ callbacks_of (filled_buffer_queue s))) s'"
    and "filled_buffer_queue s' = []" and "commit_callbacks s' = []"
    and "do_persist s' = do_persist s" and "run_task s' = run_task s"
    and "current_data_written s' =
           current_data_written s +
           flushed_bytes (drain_events (filled_buffer_queue s) (buffer_size s))"
proof -
  have b: "buffers s \<noteq> []"
    using assms by (auto simp: final_drain_persist_empty)
  have s': "s' = (WriteBuffersToLogFile s)
          \<lparr>trace := trace s @ drain_events (filled_buffer_queue s) (buffer_size s) @
                  EvPersist (hd (buffers s)) #
                  map EvInvoke (commit_callbacks s @ callbacks_of (filled_buffer_queue s)),
           commit_callbacks := []\<rparr>"
    using assms by (simp add: final_drain_persist_eq [OF b])
  show "consumer_run s
           (drain_events (filled_buffer_queue s) (buffer_size s) @
            EvPersist (hd (buffers s)) #
            map EvInvoke (commit_callbacks s @ callbacks_of (filled_buffer_queue s))) s'"
    by (simp add: s' consumer_run_def)
  show "filled_buffer_queue s' = []" "commit_callbacks s' = []"
    "do_persist s' = do_persist s" "run_task s' = run_task s"
    "current_data_written s' =
           current_data_written s +
           flushed_bytes (drain_events (filled_buffer_queue s) (buffer_size s))"
    by (simp_all add: s')
qed

text \<open>The whole loop: the iterations, then the drain and the persist after the loop.\<close>

lemma DiskLogConsumerTaskLoop_split:
  assumes "DiskLogConsumerTaskLoop start its s = Some (Inr s')"
  shows "\<exists>l1 s1 d.
           do_while its (\<lparr>write_us = 0, persist_us = 0, num_bytes = 0, num_buffers = 0,
                           last_persist = start\<rparr>, s\<lparr>current_data_written := 0\<rparr>) =
             Some (Inr (l1, s1)) \<and>
           final_drain_persist s1 = Inr s' \<and>
           consumer_run s d s1 \<and> callbacks_in_persist False d \<and> \<not> in_persist False d \<and>
           \<not> lock_held False d \<and> \<not> run_task s1"
proof -
  let ?l = "\<lparr>write_us = 0, persist_us = 0, num_bytes = 0, num_buffers = 0,
             last_persist = start\<rparr>"
  let ?s0 = "s\<lparr>current_data_written := 0\<rparr>"
  from assms obtain l1 s1 where dw: "do_while its (?l, ?s0) = Some (Inr (l1, s1))"
    and fin: "final_drain_persist s1 = Inr s'"
    by (auto simp: DiskLogConsumerTaskLoop_def Let_def split: option.splits sum.splits)
  from do_while_run [OF dw] obtain d where r: "consumer_run ?s0 d s1"
    and shape: "callbacks_in_persist False d" "\<not> in_persist False d" "\<not> lock_held False d"
      "\<not> run_task s1"
    by blast
  have "consumer_run s d s1"
    using r by (simp add: consumer_run_def)
  then show ?thesis
    using dw fin shape by blast
qed

lemma DiskLogConsumerTaskLoop_run:
  assumes "DiskLogConsumerTaskLoop start its s = Some (Inr s')"
  shows "\<exists>d. consumer_run s d s' \<and> callbacks_in_persist False d \<and> in_persist False d \<and>
             filled_buffer_queue s' = [] \<and> commit_callbacks s' = [] \<and> \<not> run_task s'"
proof -
  from DiskLogConsumerTaskLoop_split [OF assms] obtain l1 s1 d
    where fin: "final_drain_persist s1 = Inr s'"
      and r: "consumer_run s d s1"
      and shape: "callbacks_in_persist False d" "\<not> in_persist False d" "\<not> run_task s1"
    by blast
  let ?d' = "drain_events (filled_buffer_queue s1) (buffer_size s1) @
            EvPersist (hd (buffers s1)) #
            map EvInvoke (commit_callbacks s1 @ callbacks_of (filled_buffer_queue s1))"
  have "consumer_run s (d @ ?d') s'"
    by (rule consumer_run_trans [OF r final_drain_persist_run(1) [OF fin]])
  moreover have "callbacks_in_persist False (d @ ?d')" "in_persist False (d @ ?d')"
    using shape by simp_all
  moreover have "\<not> run_task s'"
    using final_drain_persist_run(5) [OF fin] shape(3) by simp
  ultimately show ?thesis
    using final_drain_persist_run(2,3) [OF fin] by blast
qed

lemma RunTask_run:
  assumes "RunTask start its s = Some (Inr s')"
  shows "\<exists>d. consumer_run s d s' \<and> callbacks_in_persist False d \<and> in_persist False d \<and>
             filled_buffer_queue s' = [] \<and> commit_callbacks s' = [] \<and> \<not> run_task s'"
proof -
  from assms have "DiskLogConsumerTaskLoop start its (s\<lparr>run_task := True\<rparr>) = Some (Inr s')"
    by (simp add: RunTask_def)
  from DiskLogConsumerTaskLoop_run [OF this] obtain d
    where "consumer_run (s\<lparr>run_task := True\<rparr>) d s'"
      and rest: "callbacks_in_persist False d" "in_persist False d"
        "filled_buffer_queue s' = []" "commit_callbacks s' = []" "\<not> run_task s'"
    by blast
  then have "consumer_run s d s'"
    by (simp add: consumer_run_def)
  then show ?thesis
    using rest by blast
qed

lemma DiskLogConsumerTaskLoop_total:
  assumes "buffers s \<noteq> []" and "\<exists>it\<in>set its. terminates_in it"
  shows "\<exists>s'. DiskLogConsumerTaskLoop start its s = Some (Inr s')"
proof -
  let ?l = "\<lparr>write_us = 0, persist_us = 0, num_bytes = 0, num_buffers = 0,
             last_persist = start\<rparr>"
  let ?s0 = "s\<lparr>current_data_written := 0\<rparr>"
  have "buffers ?s0 \<noteq> []"
    using assms(1) by simp
  from do_while_total [OF this assms(2)] obtain l1 s1
    where dw: "do_while its (?l, ?s0) = Some (Inr (l1, s1))"
    by blast
  from do_while_run [OF dw] obtain d where "consumer_run ?s0 d s1"
    by blast
  then have "buffers s1 \<noteq> []"
    using assms(1) by (simp add: consumer_run_def)
  then show ?thesis
    by (simp add: DiskLogConsumerTaskLoop_def dw final_drain_persist_eq)
qed

lemma RunTask_total:
  assumes "buffers s \<noteq> []" and "\<exists>it\<in>set its. terminates_in it"
  shows "\<exists>s'. RunTask start its s = Some (Inr s')"
  unfolding RunTask_def using assms by (intro DiskLogConsumerTaskLoop_total) simp_all

text \<open>The run of the example, event by event.\<close>

lemma ex_run:
  "\<exists>s'. RunTask 0 ex_schedule ex_consumer = Some (Inr s') \<and>
     trace s' =
       [EvLock, EvWaitFor, EvEnqueue (0, [(9, 90)]), EvUnlock,
        EvDequeue (1, [(7, 70), (8, 80)]), EvFlush 1 100, EvDequeue (0, [(9, 90)]),
        EvFlush 0 200, EvLock, EvPersist 0, EvInvoke (5, 50), EvInvoke (7, 70),
        EvInvoke (8, 80), EvInvoke (9, 90), EvUnlock, EvNotifyAll, EvRecord 3 4 300 4,
        EvLock, EvWaitFor, EvUnlock, EvEnqueue (1, [(6, 60)]), EvDequeue (1, [(6, 60)]),
        EvFlush 1 50, EvPersist 0, EvInvoke (6, 60)]"
  by (simp add: RunTask_def DiskLogConsumerTaskLoop_def ex_schedule_def ex_first_def
      ex_second_def ex_consumer_def quiet_def loop_body_unfold decision_state_def
      wait_block_def persist_condition_def duration_cast_ms_def persist_block_eq
      metrics_block_eq final_drain_persist_eq interfere_def emit_def Enqueue_def
      callbacks_of_def Let_def)

text \<open>The run of the example: its events, and the state in which the loop exits.\<close>

lemma ex_consumer_fields:
  "commit_callbacks ex_consumer = [(5, 50)]"
  "filled_buffer_queue ex_consumer = [(1, [(7, 70), (8, 80)])]"
  "buffers ex_consumer = [0, 1]"
  "trace ex_consumer = []"
  by (simp_all add: ex_consumer_def)

lemma ex_run_events:
  "\<exists>s'. RunTask 0 ex_schedule ex_consumer = Some (Inr s') \<and>
     events_since ex_consumer s' =
       [EvLock, EvWaitFor, EvEnqueue (0, [(9, 90)]), EvUnlock,
        EvDequeue (1, [(7, 70), (8, 80)]), EvFlush 1 100, EvDequeue (0, [(9, 90)]),
        EvFlush 0 200, EvLock, EvPersist 0, EvInvoke (5, 50), EvInvoke (7, 70),
        EvInvoke (8, 80), EvInvoke (9, 90), EvUnlock, EvNotifyAll, EvRecord 3 4 300 4,
        EvLock, EvWaitFor, EvUnlock, EvEnqueue (1, [(6, 60)]), EvDequeue (1, [(6, 60)]),
        EvFlush 1 50, EvPersist 0, EvInvoke (6, 60)]"
proof -
  have "trace ex_consumer = []"
    by (simp add: ex_consumer_def)
  then have "events_since ex_consumer s' = trace s'" for s'
    by (simp add: events_since_def)
  then show ?thesis
    using ex_run by simp
qed


text \<open>What a run that returns has done with the callbacks.\<close>

lemma RunTask_ledger:
  assumes "RunTask start its s = Some (Inr s')"
  shows "invoked (events_since s s') =
           commit_callbacks s @ callbacks_of (dequeued_entries (events_since s s'))"
    and "dequeued_entries (events_since s s') =
           filled_buffer_queue s @ enqueued_entries (events_since s s')"
    and "callbacks_in_persist False (events_since s s')"
    and "in_persist False (events_since s s')"
    and "filled_buffer_queue s' = []" and "commit_callbacks s' = []" and "\<not> run_task s'"
proof -
  from RunTask_run [OF assms] obtain d where r: "consumer_run s d s'"
    and rest: "callbacks_in_persist False d" "in_persist False d"
      "filled_buffer_queue s' = []" "commit_callbacks s' = []" "\<not> run_task s'"
    by blast
  have ev: "events_since s s' = d"
    by (rule consumer_run_events [OF r])
  show "invoked (events_since s s') =
           commit_callbacks s @ callbacks_of (dequeued_entries (events_since s s'))"
    "dequeued_entries (events_since s s') =
           filled_buffer_queue s @ enqueued_entries (events_since s s')"
    using r rest(3,4) by (simp_all add: ev consumer_run_def)
  show "callbacks_in_persist False (events_since s s')" "in_persist False (events_since s s')"
    "filled_buffer_queue s' = []" "commit_callbacks s' = []" "\<not> run_task s'"
    using rest by (simp_all add: ev)
qed

subsection \<open>Terminate\<close>

lemma spin_yield_running: "run_task s \<Longrightarrow> spin_yield started i s = Some s"
  by (subst spin_yield.simps) simp

lemma spin_yield_started:
  "\<not> run_task s \<Longrightarrow> started (i + k) \<Longrightarrow> \<forall>j<k. \<not> started (i + j) \<Longrightarrow>
     spin_yield started i s =
       Some (s\<lparr>run_task := True, trace := trace s @ replicate (Suc k) EvYield\<rparr>)"
proof (induction k arbitrary: i s)
  case 0
  then show ?case
    by (subst spin_yield.simps) (simp add: spin_yield_running yield_def emit_def)
next
  case (Suc k)
  have ni: "\<not> started i"
    using Suc.prems(3) by (metis add.right_neutral zero_less_Suc)
  let ?s1 = "yield (started i) s"
  have s1: "?s1 = s\<lparr>trace := trace s @ [EvYield]\<rparr>"
    using ni Suc.prems(1) by (simp add: yield_def emit_def)
  have "spin_yield started i s = spin_yield started (Suc i) ?s1"
    using Suc.prems(1) by (subst spin_yield.simps) simp
  also have "\<dots> = Some (?s1\<lparr>run_task := True, trace := trace ?s1 @ replicate (Suc k) EvYield\<rparr>)"
  proof (rule Suc.IH)
    show "\<not> run_task ?s1"
      using Suc.prems(1) by (simp add: s1)
    show "started (Suc i + k)"
      using Suc.prems(2) by simp
    show "\<forall>j<k. \<not> started (Suc i + j)"
      using Suc.prems(3) by (metis Suc_less_eq add_Suc_shift)
  qed
  finally show ?case
    by (simp add: s1 replicate_append_same)
qed

lemma spin_yield_Some:
  assumes "spin_yield started i s = Some s'"
  shows "run_task s \<or> (\<exists>j. started j)"
proof (rule spin_yield.raw_induct
    [where P = "\<lambda>started i s s'. run_task s \<or> (\<exists>j. started j)", OF _ assms])
  fix spin started i s s'
  assume IH: "\<And>started i s s'. spin started i s = Some s' \<Longrightarrow> run_task s \<or> (\<exists>j. started j)"
    and step: "(if \<not> run_task s then spin started (Suc i) (yield (started i) s) else Some s) =
               Some s'"
  show "run_task s \<or> (\<exists>j. started j)"
  proof (cases "run_task s")
    case True
    then show ?thesis by simp
  next
    case False
    then have "spin started (Suc i) (yield (started i) s) = Some s'"
      using step by simp
    from IH [OF this] show ?thesis
      by (auto simp: yield_def emit_def)
  qed
qed

section \<open>The claims\<close>

subsection \<open>Persist before callbacks\<close>

text \<open>
  C1: a successful \<^verbatim>\<open>PersistLogFile\<close> first calls \<^verbatim>\<open>Persist\<close> on the front buffer and
  then invokes the pending callbacks, all of them and in their order: every callback
  invocation of the call comes after the persist of the same call. The pending list is
  empty afterwards.
\<close>
theorem PersistLogFile_persists_before_callbacks:
  assumes "PersistLogFile s = Inr (n, s')"
  shows "events_since s s' = EvPersist (hd (buffers s)) # map EvInvoke (commit_callbacks s) \<and>
         (\<forall>i c. i < length (events_since s s') \<and> events_since s s' ! i = EvInvoke c \<longrightarrow>
            (\<exists>j<i. events_since s s' ! j = EvPersist (hd (buffers s)))) \<and>
         invoked (events_since s s') = commit_callbacks s \<and>
         commit_callbacks s' = []"
proof -
  have b: "buffers s \<noteq> []"
    using assms by (rule PersistLogFile_Inr)
  have ev: "events_since s s' = EvPersist (hd (buffers s)) # map EvInvoke (commit_callbacks s)"
    and cc: "commit_callbacks s' = []"
    using assms by (auto simp: PersistLogFile_eq [OF b] events_since_def)
  have "\<exists>j<i. events_since s s' ! j = EvPersist (hd (buffers s))"
    if "i < length (events_since s s')" and "events_since s s' ! i = EvInvoke c" for i c
  proof -
    have "i \<noteq> 0"
      using that(2) by (cases i) (simp_all add: ev)
    then show ?thesis
      by (intro exI [of _ 0]) (simp add: ev)
  qed
  then show ?thesis
    using cc by (simp add: ev)
qed

theorem PersistLogFile_persists_before_callbacks_witness:
  "PersistLogFile ex_consumer =
     Inr (1, ex_consumer\<lparr>trace := [EvPersist 0, EvInvoke (5, 50)], commit_callbacks := []\<rparr>) \<and>
   events_since ex_consumer
     (ex_consumer\<lparr>trace := [EvPersist 0, EvInvoke (5, 50)], commit_callbacks := []\<rparr>) =
     [EvPersist 0, EvInvoke (5, 50)] \<and>
   invoked (events_since ex_consumer
     (ex_consumer\<lparr>trace := [EvPersist 0, EvInvoke (5, 50)], commit_callbacks := []\<rparr>)) =
     [(5, 50)]"
proof -
  have run: "PersistLogFile ex_consumer =
     Inr (1, ex_consumer\<lparr>trace := [EvPersist 0, EvInvoke (5, 50)], commit_callbacks := []\<rparr>)"
    by (simp add: PersistLogFile_def Persist_def invoke_def emit_def ex_consumer_def)
  from PersistLogFile_persists_before_callbacks [OF run] show ?thesis
    using run by (simp add: ex_consumer_fields)
qed

subsection \<open>The persist decision\<close>

text \<open>
  The decision that line 83 takes: an iteration that returns performs at most one persist,
  and it performs one exactly when \<open>timeout\<close> of lines 81 and 82 holds, or the bytes
  written exceed the threshold, or the force-persist flag is set, or the task no longer
  runs. \<open>timeout\<close> compares the elapsed time after the cast to whole milliseconds.
\<close>
lemma loop_body_persists_iff:
  assumes "loop_body it (l, s) = Inr (l', s')"
  shows "(persist_count (events_since s s') = 1 \<longleftrightarrow>
            duration_cast_ms (now_decide it - last_persist l) >
              persist_interval (decision_state it s) \<or>
            current_data_written (decision_state it s) >
              persist_threshold (decision_state it s) \<or>
            do_persist (decision_state it s) \<or> \<not> run_task (decision_state it s)) \<and>
         (persist_count (events_since s s') = 0 \<or> persist_count (events_since s s') = 1)"
proof -
  from loop_body_run [OF assms] obtain d where r: "consumer_run s (EvLock # d) s'"
    and count: "persist_count d =
      (if persist_condition it (l\<lparr>write_us := write_us l + write_time_us it\<rparr>)
            (decision_state it s) then 1 else 0)"
    by blast
  have "persist_count (events_since s s') = persist_count d"
    using consumer_run_events [OF r] by simp
  then show ?thesis
    using count by (simp add: persist_condition_def Let_def)
qed

text \<open>
  The cast only loses time: with an interval that is not negative, whenever the code's
  condition holds the specification's condition holds too. The converse fails.
\<close>
lemma persist_condition_specified:
  assumes "0 \<le> persist_interval s" and "persist_condition it l s"
  shows "persist_condition_as_specified it l s"
proof -
  have "d > p * 1000000" if "duration_cast_ms d > p" and "0 \<le> p" for d p :: int
  proof (cases "0 < d")
    case True
    then have "duration_cast_ms d = d div 1000000"
      by (simp add: duration_cast_ms_def)
    with that(1) have q: "p + 1 \<le> d div 1000000"
      by simp
    define q r where "q = d div 1000000" and "r = d mod 1000000"
    have "d = 1000000 * q + r" and "0 \<le> r" and "p + 1 \<le> q"
      using q by (simp_all add: q_def r_def)
    then show ?thesis
      by linarith
  next
    case False
    then have "0 \<le> \<bar>d\<bar> div 1000000" and "sgn d = 0 \<or> sgn d = - 1"
      by (simp_all add: sgn_if)
    then have "duration_cast_ms d \<le> 0"
      by (auto simp: duration_cast_ms_def)
    with that show ?thesis
      by simp
  qed
  from this [of "persist_interval s" "now_decide it - last_persist l"] assms(1)
  have "duration_cast_ms (now_decide it - last_persist l) > persist_interval s \<Longrightarrow>
        now_decide it - last_persist l > persist_interval s * 1000000"
    by blast
  then show ?thesis
    using assms(2)
    unfolding persist_condition_def persist_condition_as_specified_def Let_def
    by blast
qed

text \<open>
  C2: in each iteration the consumer should persist if and only if the time elapsed since
  the last persist exceeds the persist interval, or the bytes written exceed the
  threshold, or a persist is forced, or the task no longer runs. The code does not: 10.9
  milliseconds after the last persist, with an interval of 10 milliseconds, nothing
  written, no forced persist and the task running, the elapsed time exceeds the interval
  and the iteration takes the lock, waits, releases the lock and persists nothing. Line 81
  casts the elapsed time to whole milliseconds, and 10 does not exceed 10.
\<close>
theorem persist_decision_failing_input:
  "persist_condition_as_specified ex_late ex_locals (decision_state ex_late ex_idle) \<and>
   now_decide ex_late - last_persist ex_locals = 10900000 \<and>
   persist_interval (decision_state ex_late ex_idle) = 10 \<and>
   duration_cast_ms (now_decide ex_late - last_persist ex_locals) = 10 \<and>
   loop_body ex_late (ex_locals, ex_idle) =
     Inr (ex_locals\<lparr>write_us := 1, persist_us := 1\<rparr>,
          ex_idle\<lparr>trace := [EvLock, EvWaitFor, EvUnlock]\<rparr>) \<and>
   persist_count (events_since ex_idle (ex_idle\<lparr>trace := [EvLock, EvWaitFor, EvUnlock]\<rparr>)) = 0"
  by (simp add: persist_condition_as_specified_def loop_body_unfold decision_state_def
      wait_block_def persist_condition_def duration_cast_ms_def metrics_block_eq
      interfere_def emit_def WriteBuffersToLogFile_eq events_since_def
      ex_late_def ex_locals_def ex_idle_def quiet_def Let_def)

subsection \<open>Shutdown\<close>

text \<open>
  C3: once \<^verbatim>\<open>Terminate\<close> has run in some iteration, the task returns (the \<^verbatim>\<open>buffers_\<close>
  vector being non-empty, as line 36 asserts). Whenever the task returns, the filled queue
  and the pending callback list are empty, nothing but callback invocations follows the
  last persist, and every callback that was pending at the start, queued at the start or
  enqueued during the run has been invoked.
\<close>
theorem shutdown_leaves_nothing_behind:
  "(buffers s \<noteq> [] \<and> (\<exists>it\<in>set its. terminates_in it) \<longrightarrow>
      (\<exists>s'. RunTask start its s = Some (Inr s'))) \<and>
   (\<forall>s'. RunTask start its s = Some (Inr s') \<longrightarrow>
      filled_buffer_queue s' = [] \<and> commit_callbacks s' = [] \<and> \<not> run_task s' \<and>
      in_persist False (events_since s s') \<and>
      set (commit_callbacks s) \<union> set (callbacks_of (filled_buffer_queue s)) \<union>
        set (callbacks_of (enqueued_entries (events_since s s')))
        \<subseteq> set (invoked (events_since s s')))"
proof (intro conjI allI impI)
  assume "buffers s \<noteq> [] \<and> (\<exists>it\<in>set its. terminates_in it)"
  then show "\<exists>s'. RunTask start its s = Some (Inr s')"
    by (intro RunTask_total) simp_all
next
  fix s'
  assume run: "RunTask start its s = Some (Inr s')"
  note facts = RunTask_ledger [OF run]
  show "filled_buffer_queue s' = []" "commit_callbacks s' = []" "\<not> run_task s'"
    "in_persist False (events_since s s')"
    by (rule facts)+
  have "invoked (events_since s s') =
          commit_callbacks s @ callbacks_of (filled_buffer_queue s) @
          callbacks_of (enqueued_entries (events_since s s'))"
    by (simp add: facts(1) facts(2))
  then show "set (commit_callbacks s) \<union> set (callbacks_of (filled_buffer_queue s)) \<union>
        set (callbacks_of (enqueued_entries (events_since s s')))
        \<subseteq> set (invoked (events_since s s'))"
    by auto
qed

theorem shutdown_leaves_nothing_behind_witness:
  "buffers ex_consumer \<noteq> [] \<and> terminates_in ex_second \<and>
   (\<exists>s'. RunTask 0 ex_schedule ex_consumer = Some (Inr s') \<and>
      filled_buffer_queue s' = [] \<and> commit_callbacks s' = [] \<and>
      {(5, 50), (7, 70), (8, 80), (9, 90), (6, 60)} \<subseteq> set (invoked (events_since ex_consumer s')))"
proof -
  have b: "buffers ex_consumer \<noteq> []" and t: "terminates_in ex_second"
    by (simp_all add: ex_consumer_def ex_second_def terminates_in_def)
  then have "buffers ex_consumer \<noteq> [] \<and> (\<exists>it\<in>set ex_schedule. terminates_in it)"
    by (simp add: ex_schedule_def)
  with shutdown_leaves_nothing_behind [of ex_consumer ex_schedule 0] obtain s'
    where run: "RunTask 0 ex_schedule ex_consumer = Some (Inr s')"
    by blast
  with shutdown_leaves_nothing_behind [of ex_consumer ex_schedule 0]
  have e: "filled_buffer_queue s' = []" "commit_callbacks s' = []"
    and sub: "set (commit_callbacks ex_consumer) \<union>
        set (callbacks_of (filled_buffer_queue ex_consumer)) \<union>
        set (callbacks_of (enqueued_entries (events_since ex_consumer s')))
        \<subseteq> set (invoked (events_since ex_consumer s'))"
    by blast+
  from ex_run run have "trace s' =
       [EvLock, EvWaitFor, EvEnqueue (0, [(9, 90)]), EvUnlock,
        EvDequeue (1, [(7, 70), (8, 80)]), EvFlush 1 100, EvDequeue (0, [(9, 90)]),
        EvFlush 0 200, EvLock, EvPersist 0, EvInvoke (5, 50), EvInvoke (7, 70),
        EvInvoke (8, 80), EvInvoke (9, 90), EvUnlock, EvNotifyAll, EvRecord 3 4 300 4,
        EvLock, EvWaitFor, EvUnlock, EvEnqueue (1, [(6, 60)]), EvDequeue (1, [(6, 60)]),
        EvFlush 1 50, EvPersist 0, EvInvoke (6, 60)]"
    by auto
  then have "enqueued_entries (events_since ex_consumer s') = [(0, [(9, 90)]), (1, [(6, 60)])]"
    by (simp add: events_since_def ex_consumer_def)
  with sub have "{(5, 50), (7, 70), (8, 80), (9, 90), (6, 60)}
      \<subseteq> set (invoked (events_since ex_consumer s'))"
    by (simp add: ex_consumer_def)
  with run e b t show ?thesis
    by blast
qed

subsection \<open>Every callback once\<close>

text \<open>
  C4: when the task returns, every callback that was pending or queued at the start or
  enqueued during the run has been invoked as many times as it was attached, no more and
  no less, and every callback invocation of the run comes right after a persist, with
  nothing but callback invocations in between.
\<close>
theorem callbacks_exactly_once:
  assumes "RunTask start its s = Some (Inr s')"
  shows "(\<forall>c. count_list (invoked (events_since s s')) c =
              count_list (commit_callbacks s) c +
              count_list (callbacks_of (filled_buffer_queue s)) c +
              count_list (callbacks_of (enqueued_entries (events_since s s'))) c) \<and>
         callbacks_in_persist False (events_since s s') \<and>
         commit_callbacks s' = [] \<and> filled_buffer_queue s' = []"
proof -
  note facts = RunTask_ledger [OF assms]
  have "invoked (events_since s s') =
          commit_callbacks s @ callbacks_of (filled_buffer_queue s) @
          callbacks_of (enqueued_entries (events_since s s'))"
    by (simp add: facts(1) facts(2))
  then have "count_list (invoked (events_since s s')) c =
              count_list (commit_callbacks s) c +
              count_list (callbacks_of (filled_buffer_queue s)) c +
              count_list (callbacks_of (enqueued_entries (events_since s s'))) c" for c
    by simp
  then show ?thesis
    using facts(3,5,6) by simp
qed

theorem callbacks_exactly_once_witness:
  "\<exists>s'. RunTask 0 ex_schedule ex_consumer = Some (Inr s') \<and>
     count_list (invoked (events_since ex_consumer s')) (5, 50) = 1 \<and>
     count_list (invoked (events_since ex_consumer s')) (7, 70) = 1 \<and>
     count_list (invoked (events_since ex_consumer s')) (9, 90) = 1 \<and>
     count_list (invoked (events_since ex_consumer s')) (6, 60) = 1 \<and>
     count_list (invoked (events_since ex_consumer s')) (4, 40) = 0 \<and>
     callbacks_in_persist False (events_since ex_consumer s')"
proof -
  from ex_run_events obtain s' where run: "RunTask 0 ex_schedule ex_consumer = Some (Inr s')"
    and ev: "enqueued_entries (events_since ex_consumer s') = [(0, [(9, 90)]), (1, [(6, 60)])]"
    by auto
  from callbacks_exactly_once [OF run]
  have count: "count_list (invoked (events_since ex_consumer s')) c =
              count_list (commit_callbacks ex_consumer) c +
              count_list (callbacks_of (filled_buffer_queue ex_consumer)) c +
              count_list (callbacks_of (enqueued_entries (events_since ex_consumer s'))) c"
    and shape: "callbacks_in_persist False (events_since ex_consumer s')" for c
    by blast+
  have "count_list (invoked (events_since ex_consumer s')) (5, 50) = 1"
    "count_list (invoked (events_since ex_consumer s')) (7, 70) = 1"
    "count_list (invoked (events_since ex_consumer s')) (9, 90) = 1"
    "count_list (invoked (events_since ex_consumer s')) (6, 60) = 1"
    "count_list (invoked (events_since ex_consumer s')) (4, 40) = 0"
    by (simp_all add: count ev ex_consumer_fields)
  with run shape show ?thesis
    by blast
qed

subsection \<open>The drain\<close>

text \<open>
  C5: \<^verbatim>\<open>WriteBuffersToLogFile\<close> empties the filled queue, dequeueing its entries in queue
  order; it adds the byte counts returned by \<^verbatim>\<open>FlushBuffer\<close> to
  \<^verbatim>\<open>current_data_written_\<close> (in 64-bit arithmetic), appends each entry's callbacks, in
  their order, to the end of \<^verbatim>\<open>commit_callbacks_\<close>, enqueues each buffer on the empty
  queue, and never calls \<^verbatim>\<open>Persist\<close>.
\<close>
theorem WriteBuffersToLogFile_drains:
  "filled_buffer_queue (WriteBuffersToLogFile s) = [] \<and>
   events_since s (WriteBuffersToLogFile s) =
     drain_events (filled_buffer_queue s) (buffer_size s) \<and>
   dequeued_entries (events_since s (WriteBuffersToLogFile s)) = filled_buffer_queue s \<and>
   current_data_written (WriteBuffersToLogFile s) =
     current_data_written s + flushed_bytes (events_since s (WriteBuffersToLogFile s)) \<and>
   commit_callbacks (WriteBuffersToLogFile s) =
     commit_callbacks s @ concat (map snd (filled_buffer_queue s)) \<and>
   empty_buffer_queue (WriteBuffersToLogFile s) =
     empty_buffer_queue s @ map fst (filled_buffer_queue s) \<and>
   persist_count (events_since s (WriteBuffersToLogFile s)) = 0"
  by (simp add: events_since_def callbacks_of_def)

theorem WriteBuffersToLogFile_drains_witness:
  "filled_buffer_queue (WriteBuffersToLogFile ex_consumer) = [] \<and>
   events_since ex_consumer (WriteBuffersToLogFile ex_consumer) =
     [EvDequeue (1, [(7, 70), (8, 80)]), EvFlush 1 100] \<and>
   current_data_written (WriteBuffersToLogFile ex_consumer) = 100 \<and>
   commit_callbacks (WriteBuffersToLogFile ex_consumer) = [(5, 50), (7, 70), (8, 80)] \<and>
   empty_buffer_queue (WriteBuffersToLogFile ex_consumer) = [0, 1]"
  using WriteBuffersToLogFile_drains [of ex_consumer]
  by (simp add: ex_consumer_def)

subsection \<open>The order of the callbacks\<close>

text \<open>
  C6: when the task returns, the callbacks it invoked are, in this order, the callbacks
  that were pending at the start and then the callbacks of the entries it dequeued, entry
  after entry in the order of the dequeues and within an entry in the order of its
  callback list; and the entries were dequeued in the order in which they were queued:
  the ones queued at the start, then the ones enqueued during the run in the order of
  the enqueues.
\<close>
theorem callbacks_in_drain_order:
  assumes "RunTask start its s = Some (Inr s')"
  shows "invoked (events_since s s') =
           commit_callbacks s @ concat (map snd (dequeued_entries (events_since s s'))) \<and>
         dequeued_entries (events_since s s') =
           filled_buffer_queue s @ enqueued_entries (events_since s s')"
  using RunTask_ledger(1,2) [OF assms] by (simp add: callbacks_of_def)

theorem callbacks_in_drain_order_witness:
  "\<exists>s'. RunTask 0 ex_schedule ex_consumer = Some (Inr s') \<and>
     dequeued_entries (events_since ex_consumer s') =
       [(1, [(7, 70), (8, 80)]), (0, [(9, 90)]), (1, [(6, 60)])] \<and>
     invoked (events_since ex_consumer s') = [(5, 50), (7, 70), (8, 80), (9, 90), (6, 60)]"
proof -
  from ex_run_events obtain s' where run: "RunTask 0 ex_schedule ex_consumer = Some (Inr s')"
    and ev: "enqueued_entries (events_since ex_consumer s') = [(0, [(9, 90)]), (1, [(6, 60)])]"
    by auto
  from callbacks_in_drain_order [OF run]
  have "dequeued_entries (events_since ex_consumer s') =
       [(1, [(7, 70), (8, 80)]), (0, [(9, 90)]), (1, [(6, 60)])]"
    and "invoked (events_since ex_consumer s') =
       commit_callbacks ex_consumer @
       concat (map snd (dequeued_entries (events_since ex_consumer s')))"
    by (simp_all add: ev ex_consumer_fields)
  then have "dequeued_entries (events_since ex_consumer s') =
       [(1, [(7, 70), (8, 80)]), (0, [(9, 90)]), (1, [(6, 60)])]"
    and "invoked (events_since ex_consumer s') = [(5, 50), (7, 70), (8, 80), (9, 90), (6, 60)]"
    by (simp_all add: ex_consumer_fields)
  with run show ?thesis
    by blast
qed

subsection \<open>Terminate\<close>

text \<open>
  C7: \<^verbatim>\<open>Terminate\<close> yields as long as \<^verbatim>\<open>run_task_\<close> is false. When \<^verbatim>\<open>RunTask\<close> has set
  the flag, at entry or during one of the yields, \<^verbatim>\<open>Terminate\<close> returns: it has cleared
  the flag and signalled the wake condition variable once. When \<^verbatim>\<open>RunTask\<close> never sets
  the flag, \<^verbatim>\<open>Terminate\<close> does not return.
\<close>
theorem Terminate_returns_iff_started:
  "(run_task s \<longrightarrow>
      Terminate started s =
        Some (Inr (s\<lparr>run_task := False, trace := trace s @ [EvNotifyOne]\<rparr>))) \<and>
   (\<not> run_task s \<and> started k \<and> (\<forall>j<k. \<not> started j) \<longrightarrow>
      Terminate started s =
        Some (Inr (s\<lparr>run_task := False,
                     trace := trace s @ replicate (Suc k) EvYield @ [EvNotifyOne]\<rparr>))) \<and>
   (\<not> run_task s \<and> (\<forall>j. \<not> started j) \<longrightarrow> Terminate started s = None)"
proof (intro conjI impI)
  assume "run_task s"
  then show "Terminate started s =
        Some (Inr (s\<lparr>run_task := False, trace := trace s @ [EvNotifyOne]\<rparr>))"
    by (simp add: Terminate_def spin_yield_running emit_def)
next
  assume a: "\<not> run_task s \<and> started k \<and> (\<forall>j<k. \<not> started j)"
  then have "spin_yield started 0 s =
       Some (s\<lparr>run_task := True, trace := trace s @ replicate (Suc k) EvYield\<rparr>)"
    by (intro spin_yield_started) simp_all
  then show "Terminate started s =
        Some (Inr (s\<lparr>run_task := False,
                     trace := trace s @ replicate (Suc k) EvYield @ [EvNotifyOne]\<rparr>))"
    by (simp add: Terminate_def emit_def)
next
  assume a: "\<not> run_task s \<and> (\<forall>j. \<not> started j)"
  have "spin_yield started 0 s = None"
  proof (cases "spin_yield started 0 s")
    case None
    then show ?thesis .
  next
    case (Some s')
    from spin_yield_Some [OF this] a show ?thesis
      by blast
  qed
  then show "Terminate started s = None"
    by (simp add: Terminate_def)
qed

theorem Terminate_returns_iff_started_witness:
  "run_task (ex_idle) \<and>
   Terminate (\<lambda>i. False) ex_idle =
     Some (Inr (ex_idle\<lparr>run_task := False, trace := [EvNotifyOne]\<rparr>)) \<and>
   \<not> run_task ex_consumer \<and>
   Terminate (\<lambda>i. 2 \<le> i) ex_consumer =
     Some (Inr (ex_consumer\<lparr>run_task := False,
                              trace := [EvYield, EvYield, EvYield, EvNotifyOne]\<rparr>)) \<and>
   Terminate (\<lambda>i. False) ex_consumer = None"
proof -
  have r: "run_task ex_idle" and n: "\<not> run_task ex_consumer"
    by (simp_all add: ex_idle_def ex_consumer_def)
  have late: "\<not> run_task ex_consumer \<and> (\<lambda>i::nat. 2 \<le> i) 2 \<and> (\<forall>j<2. \<not> (\<lambda>i::nat. 2 \<le> i) j)"
    using n by simp
  have never: "\<not> run_task ex_consumer \<and> (\<forall>j::nat. \<not> (\<lambda>i. False) j)"
    using n by simp
  have "Terminate (\<lambda>i. False) ex_idle =
     Some (Inr (ex_idle\<lparr>run_task := False, trace := [EvNotifyOne]\<rparr>))"
    using Terminate_returns_iff_started [of ex_idle "\<lambda>i. False" 0] r
    by (simp add: ex_idle_def)
  moreover have "Terminate (\<lambda>i. 2 \<le> i) ex_consumer =
     Some (Inr (ex_consumer\<lparr>run_task := False,
                              trace := [EvYield, EvYield, EvYield, EvNotifyOne]\<rparr>))"
    using Terminate_returns_iff_started [of ex_consumer "\<lambda>i. 2 \<le> i" 2] late
    by (simp add: ex_consumer_def numeral_2_eq_2)
  moreover have "Terminate (\<lambda>i. False) ex_consumer = None"
    using Terminate_returns_iff_started [of ex_consumer "\<lambda>i. False" 0] never
    by blast
  ultimately show ?thesis
    using r n by blast
qed

subsection \<open>Metrics\<close>

text \<open>
  C8: lines 99 to 103 never dereference a null metrics store. Metrics are recorded exactly
  when \<^verbatim>\<open>num_bytes\<close> is positive, the store is not null and the logging component is
  enabled; the record carries the four accumulators, which are zero afterwards. Otherwise
  nothing changes; in particular with a null store. In a whole loop iteration at most one
  record is submitted, and only with an enabled store, leaving the accumulators zero.
\<close>
theorem metrics_submission:
  "(\<exists>l' s'. metrics_block (l, s) = Inr (l', s') \<and>
      record_count (events_since s s') =
        (if 0 < num_bytes l \<and> (\<exists>m. metrics_store s = Some m \<and> logging_enabled m)
         then 1 else 0) \<and>
      (record_count (events_since s s') = 1 \<longrightarrow>
         events_since s s' =
           [EvRecord (write_us l) (persist_us l) (num_bytes l) (num_buffers l)] \<and>
         write_us l' = 0 \<and> persist_us l' = 0 \<and> num_bytes l' = 0 \<and> num_buffers l' = 0) \<and>
      (record_count (events_since s s') = 0 \<longrightarrow> l' = l \<and> s' = s)) \<and>
   (metrics_store s = None \<longrightarrow> metrics_block (l, s) = Inr (l, s)) \<and>
   (\<forall>it l2 s2. loop_body it (l, s) = Inr (l2, s2) \<longrightarrow>
      record_count (events_since s s2) \<le> 1 \<and>
      (record_count (events_since s s2) = 1 \<longrightarrow>
         (\<exists>m. metrics_store s = Some m \<and> logging_enabled m) \<and>
         write_us l2 = 0 \<and> persist_us l2 = 0 \<and> num_bytes l2 = 0 \<and> num_buffers l2 = 0))"
proof (intro conjI allI impI)
  show "\<exists>l' s'. metrics_block (l, s) = Inr (l', s') \<and>
      record_count (events_since s s') =
        (if 0 < num_bytes l \<and> (\<exists>m. metrics_store s = Some m \<and> logging_enabled m)
         then 1 else 0) \<and>
      (record_count (events_since s s') = 1 \<longrightarrow>
         events_since s s' =
           [EvRecord (write_us l) (persist_us l) (num_bytes l) (num_buffers l)] \<and>
         write_us l' = 0 \<and> persist_us l' = 0 \<and> num_bytes l' = 0 \<and> num_buffers l' = 0) \<and>
      (record_count (events_since s s') = 0 \<longrightarrow> l' = l \<and> s' = s)"
    by (cases "0 < num_bytes l \<and> (\<exists>m. metrics_store s = Some m \<and> logging_enabled m)")
       (simp_all add: metrics_block_eq events_since_def)
next
  assume "metrics_store s = None"
  then show "metrics_block (l, s) = Inr (l, s)"
    by (simp add: metrics_block_eq)
next
  fix it l2 s2
  assume body: "loop_body it (l, s) = Inr (l2, s2)"
  from loop_body_run [OF body] obtain d where r: "consumer_run s (EvLock # d) s2"
    and rec: "record_count d \<le> 1"
      "record_count d = 1 \<longrightarrow>
         (\<exists>m. metrics_store s = Some m \<and> logging_enabled m) \<and>
         write_us l2 = 0 \<and> persist_us l2 = 0 \<and> num_bytes l2 = 0 \<and> num_buffers l2 = 0"
    by blast
  have ev: "record_count (events_since s s2) = record_count d"
    using consumer_run_events [OF r] by simp
  show "record_count (events_since s s2) \<le> 1"
    using rec(1) by (simp add: ev)
  assume "record_count (events_since s s2) = 1"
  then have one: "record_count d = 1"
    by (simp add: ev)
  with rec(2) show "\<exists>m. metrics_store s = Some m \<and> logging_enabled m"
    "write_us l2 = 0" "persist_us l2 = 0" "num_bytes l2 = 0" "num_buffers l2 = 0"
    by blast+
qed

theorem metrics_submission_witness:
  "(\<exists>l' s'. metrics_block (ex_measured, ex_consumer) = Inr (l', s') \<and>
      events_since ex_consumer s' = [EvRecord 3 4 300 4] \<and>
      write_us l' = 0 \<and> persist_us l' = 0 \<and> num_bytes l' = 0 \<and> num_buffers l' = 0) \<and>
   metrics_store ex_idle = None \<and>
   metrics_block (ex_measured, ex_idle) = Inr (ex_measured, ex_idle)"
proof -
  have null: "metrics_store ex_idle = None"
    by (simp add: ex_idle_def)
  have on: "0 < num_bytes ex_measured \<and>
            (\<exists>m. metrics_store ex_consumer = Some m \<and> logging_enabled m)"
    by (simp add: ex_measured_def ex_consumer_def)
  from metrics_submission [of ex_measured ex_consumer] obtain l' s'
    where run: "metrics_block (ex_measured, ex_consumer) = Inr (l', s')"
      and count: "record_count (events_since ex_consumer s') =
        (if 0 < num_bytes ex_measured \<and>
            (\<exists>m. metrics_store ex_consumer = Some m \<and> logging_enabled m) then 1 else 0)"
      and sent: "record_count (events_since ex_consumer s') = 1 \<longrightarrow>
         events_since ex_consumer s' =
           [EvRecord (write_us ex_measured) (persist_us ex_measured) (num_bytes ex_measured)
              (num_buffers ex_measured)] \<and>
         write_us l' = 0 \<and> persist_us l' = 0 \<and> num_bytes l' = 0 \<and> num_buffers l' = 0"
    by blast
  have "record_count (events_since ex_consumer s') = 1"
    using count on by simp
  with sent have "events_since ex_consumer s' = [EvRecord 3 4 300 4]"
    and "write_us l' = 0 \<and> persist_us l' = 0 \<and> num_bytes l' = 0 \<and> num_buffers l' = 0"
    by (simp_all add: ex_measured_def)
  moreover have "metrics_block (ex_measured, ex_idle) = Inr (ex_measured, ex_idle)"
    using metrics_submission [of ex_measured ex_idle] null by blast
  ultimately show ?thesis
    using run null by blast
qed

subsection \<open>The contract of PersistLogFile\<close>

text \<open>
  C9: with a non-empty \<^verbatim>\<open>buffers_\<close> vector, \<^verbatim>\<open>PersistLogFile\<close> calls \<^verbatim>\<open>Persist\<close> on the
  front buffer and returns the length of the pending callback list at entry, which is the
  number of callbacks it invokes; with an empty vector the assertion of line 36 fails.
\<close>
theorem PersistLogFile_contract:
  "(buffers s \<noteq> [] \<longrightarrow>
      (\<exists>s'. PersistLogFile s = Inr (of_nat (length (commit_callbacks s)), s') \<and>
            events_since s s' = EvPersist (hd (buffers s)) # map EvInvoke (commit_callbacks s) \<and>
            length (invoked (events_since s s')) = length (commit_callbacks s)) \<and>
      (length (commit_callbacks s) < 2 ^ 64 \<longrightarrow>
         unat (of_nat (length (commit_callbacks s)) :: u64) = length (commit_callbacks s))) \<and>
   (buffers s = [] \<longrightarrow> PersistLogFile s = Inl AssertionFailure)"
  by (simp add: PersistLogFile_eq PersistLogFile_empty events_since_def unat_of_nat)

theorem PersistLogFile_contract_witness:
  "buffers ex_consumer \<noteq> [] \<and>
   (\<exists>s'. PersistLogFile ex_consumer = Inr (1, s') \<and>
      events_since ex_consumer s' = [EvPersist 0, EvInvoke (5, 50)]) \<and>
   buffers ex_idle \<noteq> [] \<and>
   buffers (ex_idle\<lparr>buffers := []\<rparr>) = [] \<and>
   PersistLogFile (ex_idle\<lparr>buffers := []\<rparr>) = Inl AssertionFailure"
proof -
  have full: "buffers ex_consumer \<noteq> []" "buffers ex_idle \<noteq> []"
    by (simp_all add: ex_consumer_def ex_idle_def)
  have none: "buffers (ex_idle\<lparr>buffers := []\<rparr>) = []"
    by simp
  from PersistLogFile_contract [of ex_consumer] full(1) obtain s'
    where "PersistLogFile ex_consumer = Inr (of_nat (length (commit_callbacks ex_consumer)), s')"
      and "events_since ex_consumer s' =
             EvPersist (hd (buffers ex_consumer)) # map EvInvoke (commit_callbacks ex_consumer)"
    by blast
  then have "PersistLogFile ex_consumer = Inr (1, s')"
    and "events_since ex_consumer s' = [EvPersist 0, EvInvoke (5, 50)]"
    by (simp_all add: ex_consumer_def)
  moreover have "PersistLogFile (ex_idle\<lparr>buffers := []\<rparr>) = Inl AssertionFailure"
    using PersistLogFile_contract [of "ex_idle\<lparr>buffers := []\<rparr>"] none by blast
  ultimately show ?thesis
    using full none by blast
qed

subsection \<open>The persist after the loop\<close>



end
